theory Spec2Isabelle
  imports Complex_Main "HOL-Library.Multiset" "HOL-Library.AList"
begin

section \<open>Exceptions\<close>

text \<open>
  The exceptions that the operations of the modelled code raise, and the sequencing of a
  step that may raise with what follows it. A result is \<open>Inl\<close> of the exception or
  \<open>Inr\<close> of the value.
\<close>

datatype py_error = KeyError | TypeError | AttributeError | OverflowError

fun and_then :: "py_error + 'a \<Rightarrow> ('a \<Rightarrow> py_error + 'b) \<Rightarrow> py_error + 'b" where
  "and_then (Inl e) f = Inl e"
| "and_then (Inr x) f = f x"

section \<open>Time Chunker\<close>

text \<open>
  \<^verbatim>\<open>chunk_time_range\<close> of \<^verbatim>\<open>q3.py\<close> parses its two ISO strings into datetimes, runs
  a while loop over them and formats the bounds of every chunk back with
  \<^verbatim>\<open>isoformat\<close>; the model starts from the parsed datetimes.

  A Python datetime is the reading of a clock, with microsecond resolution, between
  \<^verbatim>\<open>0001-01-01T00:00:00\<close> and \<^verbatim>\<open>9999-12-31T23:59:59.999999\<close>, together with the UTC
  offset of that clock when the datetime is timezone-aware: \<open>wall\<close> is the number of
  microseconds from the first reading and \<open>utcoffset\<close> the offset in microseconds
  (\<open>None\<close> for a naive datetime). \<open>max_wall\<close> is the last reading, 3652059 days less one
  microsecond.
\<close>

record datetime =
  wall :: int
  utcoffset :: "int option"

definition max_wall :: int where
  "max_wall = 315537897599999999"

definition valid_datetime :: "datetime \<Rightarrow> bool" where
  "valid_datetime d = (0 \<le> wall d \<and> wall d \<le> max_wall)"

text \<open>The point of the time line that a datetime denotes, in microseconds.\<close>

definition instant :: "datetime \<Rightarrow> int" where
  "instant d = wall d - (case utcoffset d of None \<Rightarrow> 0 | Some off \<Rightarrow> off)"

definition utc :: "int \<Rightarrow> datetime" where
  "utc w = \<lparr>wall = w, utcoffset = Some 0\<rparr>"

text \<open>
  \<^verbatim>\<open>timedelta(seconds=n)\<close>, in microseconds: a timedelta holds at most 999999999 days
  either way, beyond which the constructor raises \<^verbatim>\<open>OverflowError\<close>.
\<close>

definition timedelta_seconds :: "int \<Rightarrow> py_error + int" where
  "timedelta_seconds n =
     (if - 86399999913600 \<le> n \<and> n \<le> 86399999999999 then Inr (n * 1000000)
      else Inl OverflowError)"

text \<open>
  \<^verbatim>\<open>d + delta\<close>: the clock reading moves, the offset stays, and a reading outside the
  range of datetimes raises \<^verbatim>\<open>OverflowError\<close>.
\<close>

definition dt_add :: "datetime \<Rightarrow> int \<Rightarrow> py_error + datetime" where
  "dt_add d delta =
     (if 0 \<le> wall d + delta \<and> wall d + delta \<le> max_wall then Inr (d\<lparr>wall := wall d + delta\<rparr>)
      else Inl OverflowError)"

text \<open>
  \<^verbatim>\<open>a < b\<close>: two aware datetimes compare by the instants they denote, two naive ones by
  their readings, and a naive one against an aware one raises \<^verbatim>\<open>TypeError\<close>.
  \<^verbatim>\<open>min(a, b)\<close> is \<open>b\<close> when \<^verbatim>\<open>b < a\<close> and \<open>a\<close> otherwise.
\<close>

definition comparable :: "datetime \<Rightarrow> datetime \<Rightarrow> bool" where
  "comparable a b = ((utcoffset a = None) = (utcoffset b = None))"

definition dt_less :: "datetime \<Rightarrow> datetime \<Rightarrow> py_error + bool" where
  "dt_less a b = (if comparable a b then Inr (instant a < instant b) else Inl TypeError)"

definition dt_min :: "datetime \<Rightarrow> datetime \<Rightarrow> py_error + datetime" where
  "dt_min a b = and_then (dt_less b a) (\<lambda>smaller. Inr (if smaller then b else a))"

text \<open>
  The right-hand side of
  \<^verbatim>\<open>chunk_end = min(current_start + timedelta(seconds=max_chunk_seconds), end_dt)\<close>,
  evaluated in the order of the source: the timedelta, the sum, the minimum.
\<close>

definition next_chunk_end :: "datetime \<Rightarrow> datetime \<Rightarrow> int \<Rightarrow> py_error + datetime" where
  "next_chunk_end current_start end_dt max_chunk_seconds =
     and_then (timedelta_seconds max_chunk_seconds) (\<lambda>delta.
     and_then (dt_add current_start delta) (\<lambda>moved.
       dt_min moved end_dt))"

text \<open>
  The loop \<^verbatim>\<open>while current_start < end_dt\<close>. Nothing in the source bounds the number
  of iterations (with \<^verbatim>\<open>max_chunk_seconds = 0\<close> the loop never leaves), so the loop is a
  partial function: \<open>None\<close> is "does not return". A result is the list of chunks or the
  exception that leaves the function.
\<close>

partial_function (option) chunk_loop ::
  "datetime \<Rightarrow> int \<Rightarrow> datetime \<Rightarrow> (datetime \<times> datetime) list \<Rightarrow>
   (py_error + (datetime \<times> datetime) list) option"
where
  "chunk_loop end_dt max_chunk_seconds current_start chunks =
     (case dt_less current_start end_dt of
        Inl e \<Rightarrow> Some (Inl e)
      | Inr earlier \<Rightarrow>
          if earlier then
            (case next_chunk_end current_start end_dt max_chunk_seconds of
               Inl e \<Rightarrow> Some (Inl e)
             | Inr chunk_end \<Rightarrow>
                 chunk_loop end_dt max_chunk_seconds chunk_end
                   (chunks @ [(current_start, chunk_end)]))
          else Some (Inr chunks))"

declare chunk_loop.simps [code]

definition chunk_time_range ::
  "datetime \<Rightarrow> datetime \<Rightarrow> int \<Rightarrow> (py_error + (datetime \<times> datetime) list) option" where
  "chunk_time_range start_dt end_dt max_chunk_seconds =
     chunk_loop end_dt max_chunk_seconds start_dt []"

text \<open>
  Notions used to describe the result of the loop. On the time line: the \<open>k\<close>-th window
  of width \<open>width\<close> laid from \<open>start\<close> and cut at \<open>end\<close>, and the number of such windows
  needed to reach \<open>end\<close> (a rounded-up integer quotient). On datetimes: the \<open>k\<close>-th chunk,
  whose bounds are readings of the clock of \<open>start_dt\<close> except where the cut gives
  \<open>end_dt\<close> itself; and the reading that the last addition of the loop computes.
\<close>

definition window :: "int \<Rightarrow> int \<Rightarrow> int \<Rightarrow> nat \<Rightarrow> int \<times> int" where
  "window start end width k =
     (start + int k * width, min (start + (int k + 1) * width) end)"

definition n_windows :: "int \<Rightarrow> int \<Rightarrow> int \<Rightarrow> nat" where
  "n_windows start end width = nat ((end - start + width - 1) div width)"

definition shifted :: "datetime \<Rightarrow> int \<Rightarrow> datetime" where
  "shifted d delta = d\<lparr>wall := wall d + delta\<rparr>"

definition chunk_window :: "datetime \<Rightarrow> datetime \<Rightarrow> int \<Rightarrow> nat \<Rightarrow> datetime \<times> datetime" where
  "chunk_window start_dt end_dt width k =
     (shifted start_dt (int k * width),
      if instant end_dt < instant start_dt + (int k + 1) * width then end_dt
      else shifted start_dt ((int k + 1) * width))"

definition last_reading :: "datetime \<Rightarrow> datetime \<Rightarrow> int \<Rightarrow> int" where
  "last_reading start_dt end_dt max_chunk_seconds =
     wall start_dt
     + int (n_windows (instant start_dt) (instant end_dt) (max_chunk_seconds * 1000000))
       * (max_chunk_seconds * 1000000)"

section \<open>Stats Aggregator\<close>

text \<open>
  A \<^verbatim>\<open>Dict[str, int]\<close> of protocol label to request count. A Python dict keeps its keys
  in insertion order and \<^verbatim>\<open>items()\<close> walks them in that order, so the dict is an
  association list with distinct keys; \<open>map_of\<close> is the mapping it denotes, and two dicts
  are equal in Python (\<^verbatim>\<open>==\<close>) exactly when they denote the same mapping.
  \<open>AList.update\<close> overwrites the value of a key in place and appends a new key at the
  end, as the assignment \<^verbatim>\<open>d[k] = v\<close> does.
\<close>

type_synonym protocol_count = "(string \<times> int) list"

text \<open>
  The body shared by the inner loop of \<^verbatim>\<open>aggregate_tls_stats\<close> and by the global
  accumulation of \<^verbatim>\<open>main\<close>:
  \<^verbatim>\<open>if protocol in aggregated: aggregated[protocol] += requests
  else: aggregated[protocol] = requests\<close>
\<close>

fun add_requests :: "protocol_count \<Rightarrow> string \<times> int \<Rightarrow> protocol_count" where
  "add_requests aggregated (protocol, requests) =
     (case map_of aggregated protocol of
        Some n \<Rightarrow> AList.update protocol (n + requests) aggregated
      | None \<Rightarrow> AList.update protocol requests aggregated)"

definition aggregate_tls_stats :: "protocol_count list \<Rightarrow> protocol_count" where
  "aggregate_tls_stats stats_list =
     foldl (\<lambda>aggregated stats. foldl add_requests aggregated stats) [] stats_list"

text \<open>
  The accumulation of \<^verbatim>\<open>global_tls_stats\<close> in the zone loop of \<^verbatim>\<open>main\<close>: a zone whose
  statistics are empty (falsy) is skipped, the entries of any other zone are added one by
  one. \<open>global_tls_stats\<close> is the value of the variable once the loop has processed zones
  whose statistics are, in order, \<open>zone_stats\<close>.
\<close>

definition global_update :: "protocol_count \<Rightarrow> protocol_count \<Rightarrow> protocol_count" where
  "global_update global_stats zone_tls_stats =
     (if zone_tls_stats \<noteq> [] then foldl add_requests global_stats zone_tls_stats
      else global_stats)"

definition global_tls_stats :: "protocol_count list \<Rightarrow> protocol_count" where
  "global_tls_stats zone_stats = foldl global_update [] zone_stats"

text \<open>
  The element-wise sum of a list of mappings, in the words of the specification: a label
  is present when some mapping has it, and its count is then the sum of the counts the
  mappings give it (a mapping without the label gives nothing).
\<close>

definition count_of :: "string \<Rightarrow> protocol_count \<Rightarrow> int" where
  "count_of protocol stats = (case map_of stats protocol of Some n \<Rightarrow> n | None \<Rightarrow> 0)"

definition has_label :: "string \<Rightarrow> protocol_count \<Rightarrow> bool" where
  "has_label protocol stats = (protocol \<in> fst ` set stats)"

definition elementwise_sum :: "protocol_count list \<Rightarrow> string \<Rightarrow> int option" where
  "elementwise_sum stats_list protocol =
     (if list_ex (has_label protocol) stats_list
      then Some (sum_list (map (count_of protocol) stats_list)) else None)"

definition well_formed :: "protocol_count \<Rightarrow> bool" where
  "well_formed stats = distinct (map fst stats)"

section \<open>Responses\<close>

text \<open>
  What \<^verbatim>\<open>response.json()\<close> returns: a JSON value as a Python object. An object is a
  dict (its entries in order, keys distinct), an array a list, \<^verbatim>\<open>null\<close> is
  \<^verbatim>\<open>None\<close>. Numbers are the integers; numbers with a fraction are left out of the
  model.
\<close>

datatype json =
    JNull
  | JBool bool
  | JNum int
  | JStr string
  | JArr "json list"
  | JObj "(string \<times> json) list"

text \<open>Truth value of an object (\<^verbatim>\<open>if x:\<close>, \<^verbatim>\<open>if not x:\<close>).\<close>

fun truthy :: "json \<Rightarrow> bool" where
  "truthy JNull = False"
| "truthy (JBool b) = b"
| "truthy (JNum n) = (n \<noteq> 0)"
| "truthy (JStr s) = (s \<noteq> [])"
| "truthy (JArr xs) = (xs \<noteq> [])"
| "truthy (JObj kvs) = (kvs \<noteq> [])"

text \<open>
  \<^verbatim>\<open>x[key]\<close> with a string key: a dict gives the value or raises \<^verbatim>\<open>KeyError\<close>; a
  list or a string wants an integer index and \<^verbatim>\<open>None\<close>, a bool and a number are not
  subscriptable, all of which is \<^verbatim>\<open>TypeError\<close>.
\<close>

fun subscript :: "json \<Rightarrow> string \<Rightarrow> py_error + json" where
  "subscript (JObj kvs) key = (case map_of kvs key of Some v \<Rightarrow> Inr v | None \<Rightarrow> Inl KeyError)"
| "subscript JNull key = Inl TypeError"
| "subscript (JBool b) key = Inl TypeError"
| "subscript (JNum n) key = Inl TypeError"
| "subscript (JStr s) key = Inl TypeError"
| "subscript (JArr xs) key = Inl TypeError"

text \<open>\<^verbatim>\<open>x.get(key, default)\<close>: only a dict has the method.\<close>

fun py_get :: "json \<Rightarrow> string \<Rightarrow> json \<Rightarrow> py_error + json" where
  "py_get (JObj kvs) key fallback = Inr (case map_of kvs key of Some v \<Rightarrow> v | None \<Rightarrow> fallback)"
| "py_get JNull key fallback = Inl AttributeError"
| "py_get (JBool b) key fallback = Inl AttributeError"
| "py_get (JNum n) key fallback = Inl AttributeError"
| "py_get (JStr s) key fallback = Inl AttributeError"
| "py_get (JArr xs) key fallback = Inl AttributeError"

text \<open>
  \<^verbatim>\<open>for x in v\<close>: a list gives its elements, a dict its keys, a string its
  characters; nothing else is iterable.
\<close>

fun iterate :: "json \<Rightarrow> py_error + json list" where
  "iterate (JArr xs) = Inr xs"
| "iterate (JObj kvs) = Inr (map (\<lambda>kv. JStr (fst kv)) kvs)"
| "iterate (JStr s) = Inr (map (\<lambda>c. JStr [c]) s)"
| "iterate JNull = Inl TypeError"
| "iterate (JBool b) = Inl TypeError"
| "iterate (JNum n) = Inl TypeError"

text \<open>
  \<^verbatim>\<open>key in v\<close> with a string key: a key of the dict, an element of the list, a
  substring of the string; \<^verbatim>\<open>TypeError\<close> on anything else.
\<close>

definition substring :: "string \<Rightarrow> string \<Rightarrow> bool" where
  "substring key s = list_ex (\<lambda>i. take (length key) (drop i s) = key) [0..<Suc (length s)]"

fun contains :: "json \<Rightarrow> string \<Rightarrow> py_error + bool" where
  "contains (JObj kvs) key = Inr (map_of kvs key \<noteq> None)"
| "contains (JArr xs) key = Inr (JStr key \<in> set xs)"
| "contains (JStr s) key = Inr (substring key s)"
| "contains JNull key = Inl TypeError"
| "contains (JBool b) key = Inl TypeError"
| "contains (JNum n) key = Inl TypeError"

text \<open>
  The outcome of one HTTP exchange, as the code tells the cases apart: the request itself
  fails (\<^verbatim>\<open>requests.post\<close> or \<^verbatim>\<open>requests.get\<close> raises), the status is not a success
  (\<^verbatim>\<open>raise_for_status\<close> raises), the body is not JSON (\<^verbatim>\<open>response.json()\<close> raises),
  or the body is a JSON value. The first two are \<^verbatim>\<open>RequestException\<close>s. Which of the
  two handlers of a function catches a body that is not JSON depends on the version of the
  \<^verbatim>\<open>requests\<close> library; both return the same value, and the model keeps the line of
  the handler written for that case.
\<close>

datatype http_outcome = ConnectionFailed | StatusError | BodyNotJSON | Body json

text \<open>What the functions print, by kind of line (the wording of a line is not modelled).\<close>

datatype message =
    MakingRequest
  | PrintHeaders
  | PrintPayload
  | ResponseStatus
  | ResponseHeaders
  | FullResponse json
  | GraphQLErrors json
  | NullErrorsWarning
  | RequestError
  | JSONDecodeErrorMessage
  | RawResponseText
  | ChunkFailed nat

section \<open>Query Executor\<close>

text \<open>
  The test \<^verbatim>\<open>"errors" in data and data["errors"] is not None\<close>, in two steps: whether
  the key is there and, if so, its value.
\<close>

definition errors_field :: "json \<Rightarrow> py_error + json option" where
  "errors_field data =
     and_then (contains data ''errors'')
       (\<lambda>present. if present then and_then (subscript data ''errors'') (\<lambda>v. Inr (Some v))
                   else Inr None)"

text \<open>
  \<^verbatim>\<open>execute_graphql_query\<close> of \<^verbatim>\<open>q3.py\<close> (and of \<^verbatim>\<open>q2.py\<close>, which has the same
  text), given the outcome of its one POST. The result is what the call returns
  (\<open>Inr None\<close> for \<^verbatim>\<open>None\<close>) or the exception that leaves it, with the lines printed.
\<close>

definition execute_graphql_query ::
  "bool \<Rightarrow> http_outcome \<Rightarrow> (py_error + json option) \<times> message list" where
  "execute_graphql_query verbose outcome =
     (let before = (if verbose then [MakingRequest, PrintPayload] else []);
          status = (if verbose then [ResponseStatus] else [])
      in case outcome of
           ConnectionFailed \<Rightarrow> (Inr None, before @ [RequestError])
         | StatusError \<Rightarrow> (Inr None, before @ status @ [RequestError])
         | BodyNotJSON \<Rightarrow> (Inr None, before @ status @ [JSONDecodeErrorMessage])
         | Body data \<Rightarrow>
             (let out = before @ status @ (if verbose then [FullResponse data] else [])
              in case errors_field data of
                   Inl e \<Rightarrow> (Inl e, out)
                 | Inr None \<Rightarrow> (Inr (Some data), out)
                 | Inr (Some errors) \<Rightarrow>
                     if errors \<noteq> JNull then (Inr None, out @ [GraphQLErrors errors])
                     else (Inr (Some data), out)))"

text \<open>
  \<^verbatim>\<open>execute_graphql_query\<close> of \<^verbatim>\<open>q1.py\<close>: it has no \<^verbatim>\<open>verbose\<close> switch and prints
  every trace line; after the test for errors it has a second test,
  \<^verbatim>\<open>"errors" in data and data["errors"] is None\<close>, that prints a warning.
\<close>

definition execute_graphql_query_q1 ::
  "http_outcome \<Rightarrow> (py_error + json option) \<times> message list" where
  "execute_graphql_query_q1 outcome =
     (let before = [MakingRequest, PrintHeaders, PrintPayload];
          status = [ResponseStatus, ResponseHeaders]
      in case outcome of
           ConnectionFailed \<Rightarrow> (Inr None, before @ [RequestError])
         | StatusError \<Rightarrow> (Inr None, before @ status @ [RequestError])
         | BodyNotJSON \<Rightarrow>
             (Inr None, before @ status @ [JSONDecodeErrorMessage, RawResponseText])
         | Body data \<Rightarrow>
             (let out = before @ status @ [FullResponse data]
              in case errors_field data of
                   Inl e \<Rightarrow> (Inl e, out)
                 | Inr None \<Rightarrow> (Inr (Some data), out)
                 | Inr (Some errors) \<Rightarrow>
                     if errors \<noteq> JNull then (Inr None, out @ [GraphQLErrors errors])
                     else (Inr (Some data), out @ [NullErrorsWarning])))"

section \<open>Zone Directory\<close>

text \<open>
  A zone as the directory returns it, the dict \<^verbatim>\<open>{"zoneTag": ..., "name": ...}\<close>; both
  entries are whatever the response holds under the keys read.
\<close>

record zone =
  zoneTag :: json
  name :: json

text \<open>
  The body of \<^verbatim>\<open>for zone in page_zones\<close> in \<^verbatim>\<open>get_all_zones_rest_api\<close>: the
  subscripts \<^verbatim>\<open>zone["id"]\<close> and \<^verbatim>\<open>zone["name"]\<close> may raise.
\<close>

fun append_zones :: "json list \<Rightarrow> zone list \<Rightarrow> py_error + zone list" where
  "append_zones [] zones = Inr zones"
| "append_zones (z # page_zones) zones =
     and_then (subscript z ''id'') (\<lambda>zone_id.
     and_then (subscript z ''name'') (\<lambda>zone_name.
       append_zones page_zones (zones @ [\<lparr>zoneTag = zone_id, name = zone_name\<rparr>])))"

text \<open>\<^verbatim>\<open>page >= total_pages\<close>: an integer against a number or a bool (a bool is 0 or 1).\<close>

fun page_ge :: "nat \<Rightarrow> json \<Rightarrow> py_error + bool" where
  "page_ge page (JNum n) = Inr (n \<le> int page)"
| "page_ge page (JBool b) = Inr ((if b then 1 else 0) \<le> page)"
| "page_ge page JNull = Inl TypeError"
| "page_ge page (JStr s) = Inl TypeError"
| "page_ge page (JArr xs) = Inl TypeError"
| "page_ge page (JObj kvs) = Inl TypeError"

text \<open>
  One round of the \<^verbatim>\<open>while True\<close> loop of \<^verbatim>\<open>get_all_zones_rest_api\<close>, given the
  outcome of the GET for the current page: either the function is left (by \<^verbatim>\<open>return\<close>,
  by \<^verbatim>\<open>break\<close> and the \<^verbatim>\<open>return zones\<close> after the loop, or by an exception that its two
  handlers do not catch), or the loop goes on to the next page with the zones so far.
\<close>

datatype page_step = Leave "py_error + zone list" | NextPage "zone list"

fun leave_on_error :: "py_error + page_step \<Rightarrow> page_step" where
  "leave_on_error (Inl e) = Leave (Inl e)"
| "leave_on_error (Inr step) = step"

definition rest_page :: "http_outcome \<Rightarrow> nat \<Rightarrow> zone list \<Rightarrow> page_step" where
  "rest_page outcome page zones =
     (case outcome of
        ConnectionFailed \<Rightarrow> Leave (Inr [])
      | StatusError \<Rightarrow> Leave (Inr [])
      | BodyNotJSON \<Rightarrow> Leave (Inr [])
      | Body data \<Rightarrow> leave_on_error (
          and_then (py_get data ''success'' (JBool False)) (\<lambda>success.
          if \<not> truthy success then Inr (Leave (Inr []))
          else
            and_then (py_get data ''result'' (JArr [])) (\<lambda>page_zones.
            if \<not> truthy page_zones then Inr (Leave (Inr zones))
            else
              and_then (iterate page_zones) (\<lambda>items.
              and_then (append_zones items zones) (\<lambda>zones'.
              and_then (py_get data ''result_info'' (JObj [])) (\<lambda>result_info.
              and_then (py_get result_info ''total_pages'' (JNum 1)) (\<lambda>total_pages.
              and_then (page_ge page total_pages) (\<lambda>last_page.
                Inr (if last_page then Leave (Inr zones') else NextPage zones'))))))))))"

text \<open>
  The loop. The page requested is the only thing a GET depends on and no page is requested
  twice, so the responses of the listing endpoint are a function of the page number. The
  source puts no bound on the number of rounds: the loop is a partial function, and
  \<open>None\<close> is "does not return". With the result comes the value of \<^verbatim>\<open>page\<close> at the moment
  the function is left.
\<close>

partial_function (option) rest_loop ::
  "(nat \<Rightarrow> http_outcome) \<Rightarrow> nat \<Rightarrow> zone list \<Rightarrow> ((py_error + zone list) \<times> nat) option"
where
  "rest_loop listing page zones =
     (case rest_page (listing page) page zones of
        Leave result \<Rightarrow> Some (result, page)
      | NextPage zones' \<Rightarrow> rest_loop listing (page + 1) zones')"

declare rest_loop.simps [code]

definition get_all_zones_rest_api ::
  "(nat \<Rightarrow> http_outcome) \<Rightarrow> ((py_error + zone list) \<times> nat) option" where
  "get_all_zones_rest_api listing = rest_loop listing 1 []"

text \<open>
  The fallback of \<^verbatim>\<open>get_all_zones\<close>: the loop
  \<^verbatim>\<open>for zone in gql_zones: zone_list.append({"zoneTag": zone["zoneTag"], "name": zone["zoneTag"]})\<close>
  and the \<^verbatim>\<open>try\<close> block around it, whose handler catches \<^verbatim>\<open>KeyError\<close> and nothing
  else.
\<close>

fun gql_zone_list :: "json list \<Rightarrow> zone list \<Rightarrow> py_error + zone list" where
  "gql_zone_list [] zone_list = Inr zone_list"
| "gql_zone_list (z # gql_zones) zone_list =
     and_then (subscript z ''zoneTag'') (\<lambda>tag.
     and_then (subscript z ''zoneTag'') (\<lambda>tag_as_name.
       gql_zone_list gql_zones (zone_list @ [\<lparr>zoneTag = tag, name = tag_as_name\<rparr>])))"

definition zones_of_response :: "json \<Rightarrow> py_error + zone list" where
  "zones_of_response response_data =
     (case and_then (subscript response_data ''data'') (\<lambda>data.
           and_then (subscript data ''viewer'') (\<lambda>viewer.
           and_then (subscript viewer ''zones'') (\<lambda>gql_zones.
           and_then (iterate gql_zones) (\<lambda>items. gql_zone_list items [])))) of
        Inl KeyError \<Rightarrow> Inr []
      | Inl e \<Rightarrow> Inl e
      | Inr zone_list \<Rightarrow> Inr zone_list)"

definition graphql_zones :: "bool \<Rightarrow> http_outcome \<Rightarrow> py_error + zone list" where
  "graphql_zones verbose outcome =
     (case fst (execute_graphql_query verbose outcome) of
        Inl e \<Rightarrow> Inl e
      | Inr None \<Rightarrow> Inr []
      | Inr (Some response_data) \<Rightarrow>
          if \<not> truthy response_data then Inr [] else zones_of_response response_data)"

text \<open>
  \<^verbatim>\<open>get_all_zones\<close>, given the responses of the listing endpoint and the outcome of the
  POST of the zones query, should it be sent. With the result comes the number of zones
  queries sent.
\<close>

definition get_all_zones ::
  "(nat \<Rightarrow> http_outcome) \<Rightarrow> http_outcome \<Rightarrow> bool \<Rightarrow> ((py_error + zone list) \<times> nat) option" where
  "get_all_zones listing zones_query verbose =
     (case get_all_zones_rest_api listing of
        None \<Rightarrow> None
      | Some (Inl e, page) \<Rightarrow> Some (Inl e, 0)
      | Some (Inr zones, page) \<Rightarrow>
          if zones \<noteq> [] then Some (Inr zones, 0)
          else Some (graphql_zones verbose zones_query, 1))"

text \<open>
  A page with an empty result list: the body is an object whose \<^verbatim>\<open>result\<close> is missing
  (the code then reads \<^verbatim>\<open>[]\<close>) or is empty.
\<close>

definition empty_page :: "http_outcome \<Rightarrow> bool" where
  "empty_page outcome =
     (case outcome of
        Body (JObj kvs) \<Rightarrow> (case map_of kvs ''result'' of None \<Rightarrow> True | Some v \<Rightarrow> \<not> truthy v)
      | _ \<Rightarrow> False)"

text \<open>
  A listing endpoint whose \<^verbatim>\<open>total_pages\<close> overstates: two pages of one zone each, every
  later page empty, and ten pages announced throughout.
\<close>

definition overstating_listing :: "nat \<Rightarrow> http_outcome" where
  "overstating_listing page =
     (if page < 3 then
        Body (JObj [(''success'', JBool True),
                    (''result'', JArr [JObj [(''id'', JStr ''z1''), (''name'', JStr ''example.com'')]]),
                    (''result_info'', JObj [(''page'', JNum (int page)), (''total_pages'', JNum 10)])])
      else
        Body (JObj [(''success'', JBool True), (''result'', JArr []),
                    (''result_info'', JObj [(''page'', JNum (int page)), (''total_pages'', JNum 10)])]))"

section \<open>File Exporter\<close>

text \<open>
  \<^verbatim>\<open>sorted(tls_stats.items(), key=lambda x: x[1], reverse=True)\<close>: a stable sort by
  descending count (with \<^verbatim>\<open>reverse=True\<close> entries of equal count keep their order), which
  is the stable insertion sort on the negated count.
\<close>

definition sorted_stats :: "protocol_count \<Rightarrow> protocol_count" where
  "sorted_stats tls_stats = sort_key (\<lambda>item. - snd item) tls_stats"

text \<open>The decimal text of an integer, as \<^verbatim>\<open>{requests}\<close> formats it in an f-string.\<close>

definition digit_char :: "nat \<Rightarrow> char" where
  "digit_char d = ''0123456789'' ! d"

fun str_nat :: "nat \<Rightarrow> string" where
  "str_nat n = (if n < 10 then [digit_char n] else str_nat (n div 10) @ [digit_char (n mod 10)])"

declare str_nat.simps [simp del]

definition str_int :: "int \<Rightarrow> string" where
  "str_int i = (if i < 0 then CHR ''-'' # str_nat (nat (- i)) else str_nat (nat i))"

definition newline :: char where
  "newline = CHR 0x0A"

text \<open>The line \<^verbatim>\<open>f"{zone_name};{zone_tag};{protocol};{requests}\n"\<close>.\<close>

definition export_line :: "string \<Rightarrow> string \<Rightarrow> string \<times> int \<Rightarrow> string" where
  "export_line zone_name zone_tag item =
     zone_name @ '';'' @ zone_tag @ '';'' @ fst item @ '';'' @ str_int (snd item) @ [newline]"

text \<open>
  \<^verbatim>\<open>export_zone_tls_stats\<close>. The file is its text; it is opened for appending.
  \<open>writable\<close> says whether opening and writing succeed: if not, the \<^verbatim>\<open>IOError\<close> is
  caught and reported, and the text is as before. Empty statistics return before the file
  is opened. What is printed is not modelled.
\<close>

definition export_zone_tls_stats ::
  "string \<Rightarrow> string \<Rightarrow> protocol_count \<Rightarrow> bool \<Rightarrow> string \<Rightarrow> string" where
  "export_zone_tls_stats zone_name zone_tag tls_stats writable file =
     (if tls_stats = [] then file
      else if writable then
        file @ concat (map (export_line zone_name zone_tag) (sorted_stats tls_stats))
      else file)"

text \<open>
  Modelled from the spec: the reader of the export format, which the repository does not
  have. The specification gives the format as newline-terminated lines of four fields
  \<^verbatim>\<open>zoneName;zoneIdentifier;protocolLabel;count\<close> separated by semicolons; the reader splits
  the text at the line breaks, each line at the semicolons, and reads the fourth field as a
  decimal integer.
\<close>

fun split_on :: "char \<Rightarrow> string \<Rightarrow> string list" where
  "split_on sep [] = [[]]"
| "split_on sep (c # cs) =
     (if c = sep then [] # split_on sep cs
      else (case split_on sep cs of [] \<Rightarrow> [[c]] | w # ws \<Rightarrow> (c # w) # ws))"

definition digit_value :: "char \<Rightarrow> nat option" where
  "digit_value c = map_of (zip ''0123456789'' [0, 1, 2, 3, 4, 5, 6, 7, 8, 9]) c"

fun parse_digits :: "nat \<Rightarrow> string \<Rightarrow> nat option" where
  "parse_digits acc [] = Some acc"
| "parse_digits acc (c # cs) =
     (case digit_value c of None \<Rightarrow> None | Some d \<Rightarrow> parse_digits (10 * acc + d) cs)"

definition parse_nat :: "string \<Rightarrow> nat option" where
  "parse_nat s = (if s = [] then None else parse_digits 0 s)"

definition parse_int :: "string \<Rightarrow> int option" where
  "parse_int s =
     (case s of
        [] \<Rightarrow> None
      | c # cs \<Rightarrow> if c = CHR ''-'' then map_option (\<lambda>n. - int n) (parse_nat cs)
                  else map_option int (parse_nat s))"

definition parse_line :: "string \<Rightarrow> (string \<times> string \<times> string \<times> int) option" where
  "parse_line line =
     (case split_on (CHR '';'') line of
        [zone_name, zone_tag, protocol, requests] \<Rightarrow>
          map_option (\<lambda>n. (zone_name, zone_tag, protocol, n)) (parse_int requests)
      | _ \<Rightarrow> None)"

definition parse_export :: "string \<Rightarrow> (string \<times> string \<times> string \<times> int) list option" where
  "parse_export file = those (map parse_line (butlast (split_on newline file)))"

definition parsed_counts :: "(string \<times> string \<times> string \<times> int) list \<Rightarrow> protocol_count" where
  "parsed_counts rows = map (\<lambda>row. (fst (snd (snd row)), snd (snd (snd row)))) rows"

text \<open>A field that the format can carry: no semicolon and no line break in it.\<close>

definition plain :: "string \<Rightarrow> bool" where
  "plain s = (CHR '';'' \<notin> set s \<and> newline \<notin> set s)"

section \<open>Pipeline Orchestrator\<close>

text \<open>
  The state of a run: the statistics queries sent so far (zone identifier, window bounds and
  row limit, the content of \<^verbatim>\<open>build_tls_variables\<close>), the pauses taken
  (\<^verbatim>\<open>time.sleep\<close>, with their length in seconds), the lines printed by the executor and
  the failure lines of the chunks, the variables \<^verbatim>\<open>global_tls_stats\<close> and
  \<^verbatim>\<open>all_zone_stats\<close> of \<^verbatim>\<open>main\<close>, and the text of the export file.
\<close>

record run =
  queries :: "(string \<times> datetime \<times> datetime \<times> int) list"
  sleeps :: "real list"
  printed :: "message list"
  global_stats :: protocol_count
  all_zone_stats :: "(string \<times> protocol_count) list"
  export_file :: string

text \<open>
  The network answers the statistics queries of a run one after the other: \<open>network n\<close> is
  the outcome of the POST sent when \<open>n\<close> queries have been sent before.
  \<^verbatim>\<open>process_tls_data_for_zone\<close> is a parameter of the model: it is called with the
  response and the zone name and returns a dict of counts or raises; everything proved
  below holds whatever it does.
\<close>

type_synonym network = "nat \<Rightarrow> http_outcome"

type_synonym processor = "json \<Rightarrow> string \<Rightarrow> py_error + protocol_count"

text \<open>The response under \<^verbatim>\<open>if response_data:\<close>, when the test holds.\<close>

fun if_truthy :: "json option \<Rightarrow> json option" where
  "if_truthy None = None"
| "if_truthy (Some response_data) = (if truthy response_data then Some response_data else None)"

text \<open>
  The loop \<^verbatim>\<open>for i, (chunk_start, chunk_end) in enumerate(time_chunks, 1)\<close> of
  \<^verbatim>\<open>fetch_zone_tls_stats_chunked\<close>: the query, the pause that follows every query when
  \<^verbatim>\<open>delay > 0\<close>, then either the statistics of the chunk appended to
  \<^verbatim>\<open>chunk_stats\<close> or the failure line.
\<close>

fun fetch_chunks ::
  "network \<Rightarrow> processor \<Rightarrow> string \<Rightarrow> string \<Rightarrow> int \<Rightarrow> real \<Rightarrow> bool \<Rightarrow> nat \<Rightarrow>
   (datetime \<times> datetime) list \<Rightarrow> protocol_count list \<Rightarrow> run \<Rightarrow>
   (py_error + protocol_count list) \<times> run"
where
  "fetch_chunks net process zone_name zone_tag limit delay verbose i [] chunk_stats s =
     (Inr chunk_stats, s)"
| "fetch_chunks net process zone_name zone_tag limit delay verbose i (chunk # time_chunks) chunk_stats s =
     (let answer = execute_graphql_query verbose (net (length (queries s)));
          s1 = s\<lparr>queries := queries s @ [(zone_tag, fst chunk, snd chunk, limit)],
                 printed := printed s @ snd answer\<rparr>
      in case fst answer of
           Inl e \<Rightarrow> (Inl e, s1)
         | Inr response_data \<Rightarrow>
             (let s2 = (if 0 < delay then s1\<lparr>sleeps := sleeps s1 @ [delay]\<rparr> else s1)
              in case if_truthy response_data of
                   Some data \<Rightarrow>
                     (case process data zone_name of
                        Inl e \<Rightarrow> (Inl e, s2)
                      | Inr chunk_tls_stats \<Rightarrow>
                          fetch_chunks net process zone_name zone_tag limit delay verbose (Suc i)
                            time_chunks (chunk_stats @ [chunk_tls_stats]) s2)
                 | None \<Rightarrow>
                     fetch_chunks net process zone_name zone_tag limit delay verbose (Suc i)
                       time_chunks chunk_stats (s2\<lparr>printed := printed s2 @ [ChunkFailed i]\<rparr>)))"

text \<open>
  \<^verbatim>\<open>fetch_zone_tls_stats_chunked\<close>: the windows come from \<^verbatim>\<open>chunk_time_range\<close> with
  its default width of 259200 seconds; an exception of \<^verbatim>\<open>chunk_time_range\<close> leaves the
  function before any query is sent.
\<close>

definition fetch_zone_tls_stats_chunked ::
  "network \<Rightarrow> processor \<Rightarrow> string \<Rightarrow> string \<Rightarrow> datetime \<Rightarrow> datetime \<Rightarrow> int \<Rightarrow> real \<Rightarrow> bool \<Rightarrow>
   run \<Rightarrow> ((py_error + protocol_count) \<times> run) option" where
  "fetch_zone_tls_stats_chunked net process zone_name zone_tag start_dt end_dt limit delay verbose s =
     (case chunk_time_range start_dt end_dt 259200 of
        None \<Rightarrow> None
      | Some (Inl e) \<Rightarrow> Some (Inl e, s)
      | Some (Inr time_chunks) \<Rightarrow>
          (case fetch_chunks net process zone_name zone_tag limit delay verbose 1 time_chunks [] s of
             (Inl e, s') \<Rightarrow> Some (Inl e, s')
           | (Inr chunk_stats, s') \<Rightarrow> Some (Inr (aggregate_tls_stats chunk_stats), s')))"

text \<open>
  The zone loop of \<^verbatim>\<open>main\<close>, \<^verbatim>\<open>for i, zone in enumerate(zones, 1)\<close>, over zones given
  by name and identifier; \<open>n\<close> is \<^verbatim>\<open>len(zones)\<close>. \<open>export\<close> is \<open>None\<close> without
  \<^verbatim>\<open>--export-file\<close> and otherwise says whether the file can be written. The console
  report of a zone does not touch the state.
\<close>

fun main_zones ::
  "network \<Rightarrow> processor \<Rightarrow> datetime \<Rightarrow> datetime \<Rightarrow> int \<Rightarrow> real \<Rightarrow> bool \<Rightarrow> bool option \<Rightarrow>
   nat \<Rightarrow> nat \<Rightarrow> (string \<times> string) list \<Rightarrow> run \<Rightarrow> ((py_error + unit) \<times> run) option"
where
  "main_zones net process start_dt end_dt limit delay verbose export n i [] s = Some (Inr (), s)"
| "main_zones net process start_dt end_dt limit delay verbose export n i (zone # zones) s =
     (case fetch_zone_tls_stats_chunked net process (fst zone) (snd zone) start_dt end_dt limit
             delay verbose s of
        None \<Rightarrow> None
      | Some (Inl e, s1) \<Rightarrow> Some (Inl e, s1)
      | Some (Inr zone_tls_stats, s1) \<Rightarrow>
          (let s2 =
                 (if zone_tls_stats \<noteq> [] then
                    s1\<lparr>all_zone_stats := AList.update (fst zone) zone_tls_stats (all_zone_stats s1),
                        global_stats := foldl add_requests (global_stats s1) zone_tls_stats,
                        export_file :=
                          (case export of
                             None \<Rightarrow> export_file s1
                           | Some writable \<Rightarrow>
                               export_zone_tls_stats (fst zone) (snd zone) zone_tls_stats writable
                                 (export_file s1))\<rparr>
                  else s1\<lparr>all_zone_stats := AList.update (fst zone) [] (all_zone_stats s1)\<rparr>);
               s3 = (if i < n \<and> 0 < delay then s2\<lparr>sleeps := sleeps s2 @ [delay]\<rparr> else s2)
           in main_zones net process start_dt end_dt limit delay verbose export n (Suc i) zones s3))"

definition initial_run :: run where
  "initial_run =
     \<lparr>queries = [], sleeps = [], printed = [], global_stats = [], all_zone_stats = [],
      export_file = []\<rparr>"

definition main_loop ::
  "network \<Rightarrow> processor \<Rightarrow> datetime \<Rightarrow> datetime \<Rightarrow> int \<Rightarrow> real \<Rightarrow> bool \<Rightarrow> bool option \<Rightarrow>
   (string \<times> string) list \<Rightarrow> ((py_error + unit) \<times> run) option" where
  "main_loop net process start_dt end_dt limit delay verbose export zones =
     main_zones net process start_dt end_dt limit delay verbose export (length zones) 1 zones
       initial_run"



section \<open>Properties of the Time Chunker\<close>

lemma n_windows_done: "0 < w \<Longrightarrow> \<not> c < e \<Longrightarrow> n_windows c e w = 0"
proof -
  assume a: "0 < w" "\<not> c < e"
  then have "e - c + w - 1 \<le> w - 1" by simp
  then have "(e - c + w - 1) div w \<le> (w - 1) div w"
    using a(1) by (rule zdiv_mono1)
  moreover have "(w - 1) div w = 0" using a(1) by (simp add: div_pos_pos_trivial)
  ultimately show ?thesis by (simp add: n_windows_def)
qed

lemma n_windows_step: 
  assumes "0 < w" "c < e"
  shows "n_windows c e w = Suc (n_windows (min (c + w) e) e w)"
proof (cases "c + w \<le> e")
  case True
  have "e - c + w - 1 = (e - (c + w) + w - 1) + w" by simp
  then have "(e - c + w - 1) div w = (e - (c + w) + w - 1) div w + 1"
    using assms(1) by (metis div_add_self2 less_irrefl)
  moreover have "0 \<le> (e - (c + w) + w - 1) div w"
    using True assms by (simp add: pos_imp_zdiv_nonneg_iff)
  ultimately show ?thesis using True by (simp add: n_windows_def min_def)
next
  case False
  then have m: "min (c + w) e = e" by simp
  have "e - c + w - 1 = (e - c - 1) + w" by simp
  then have "(e - c + w - 1) div w = (e - c - 1) div w + 1"
    using assms(1) by (metis div_add_self2 less_irrefl)
  moreover have "(e - c - 1) div w = 0" using False assms by (simp add: div_pos_pos_trivial)
  ultimately show ?thesis using m n_windows_done[of w e e] assms by (simp add: n_windows_def)
qed


lemma n_windows_less_iff:
  "0 < w \<Longrightarrow> k < n_windows c e w \<longleftrightarrow> c + int k * w < e"
proof (induction k arbitrary: c)
  case 0
  show ?case
  proof (cases "c < e")
    case True
    then show ?thesis using n_windows_step[OF 0 True] by simp
  next
    case False
    then show ?thesis using n_windows_done[OF 0 False] by simp
  qed
next
  case (Suc j)
  show ?case
  proof (cases "c < e")
    case False
    have "0 \<le> int (Suc j) * w" using Suc.prems by simp
    then have "\<not> c + int (Suc j) * w < e" using False by linarith
    then show ?thesis using n_windows_done[OF Suc.prems False] by simp
  next
    case True
    note st = n_windows_step[OF Suc.prems True]
    show ?thesis
    proof (cases "c + w \<le> e")
      case True
      then have "min (c + w) e = c + w" by simp
      then show ?thesis using st Suc.IH[OF Suc.prems, of "c + w"] by (simp add: algebra_simps)
    next
      case False
      then have m: "min (c + w) e = e" by simp
      have "0 \<le> int j * w" using Suc.prems by simp
      then have "\<not> c + int (Suc j) * w < e" using False by (simp add: algebra_simps)
      then show ?thesis using st m n_windows_done[OF Suc.prems, of e e] by simp
    qed
  qed
qed

lemma n_windows_ceiling:
  assumes "0 < w"
  shows "n_windows c e w = nat \<lceil>real_of_int (e - c) / real_of_int w\<rceil>"
proof -
  let ?N = "nat \<lceil>real_of_int (e - c) / real_of_int w\<rceil>"
  have "k < n_windows c e w \<longleftrightarrow> k < ?N" for k
  proof -
    have "k < ?N \<longleftrightarrow> real k < real_of_int (e - c) / real_of_int w"
      by (simp add: zless_nat_eq_int_zless less_ceiling_iff)
    also have "\<dots> \<longleftrightarrow> real k * real_of_int w < real_of_int (e - c)"
      using assms by (simp add: pos_less_divide_eq)
    also have "\<dots> \<longleftrightarrow> int k * w < e - c"
      by (metis of_int_less_iff of_int_mult of_int_of_nat_eq)
    also have "\<dots> \<longleftrightarrow> k < n_windows c e w"
      using n_windows_less_iff[OF assms, of k c e] by linarith
    finally show ?thesis by simp
  qed
  then show ?thesis by (metis linorder_neqE_nat less_irrefl)
qed


lemma window_bounds:
  assumes "0 < w" and "k < n_windows c e w"
  shows "fst (window c e w k) < snd (window c e w k)"
    and "snd (window c e w k) - fst (window c e w k) \<le> w"
    and "c \<le> fst (window c e w k)"
    and "snd (window c e w k) \<le> e"
proof -
  have lt: "c + int k * w < e" using assms n_windows_less_iff by blast
  have nn: "0 \<le> int k * w" using assms(1) by simp
  show "fst (window c e w k) < snd (window c e w k)"
    using lt assms(1) by (simp add: window_def algebra_simps)
  show "snd (window c e w k) - fst (window c e w k) \<le> w"
    by (simp add: window_def algebra_simps)
  show "c \<le> fst (window c e w k)" using nn by (simp add: window_def)
  show "snd (window c e w k) \<le> e" by (simp add: window_def)
qed

lemma window_contiguous:
  assumes "0 < w" and "Suc k < n_windows c e w"
  shows "fst (window c e w (Suc k)) = snd (window c e w k)"
proof -
  have "c + int (Suc k) * w < e" using assms n_windows_less_iff by blast
  then show ?thesis by (simp add: window_def algebra_simps)
qed

lemma window_last:
  assumes "0 < w" and "n_windows c e w = Suc k"
  shows "snd (window c e w k) = e"
proof -
  have "\<not> Suc k < n_windows c e w" using assms(2) by simp
  then have "\<not> c + int (Suc k) * w < e" using assms(1) n_windows_less_iff by blast
  then show ?thesis by (simp add: window_def algebra_simps)
qed

lemma window_mono:
  assumes "0 < w" and "i < j"
  shows "snd (window c e w i) \<le> fst (window c e w j)"
proof -
  have "int i + 1 \<le> int j" using assms(2) by simp
  then have "(int i + 1) * w \<le> int j * w" using assms(1) by (simp add: mult_right_mono)
  then show ?thesis by (simp add: window_def)
qed

lemma window_cover:
  assumes "0 < w" and "c \<le> x" and "x < e"
  shows "\<exists>k < n_windows c e w. fst (window c e w k) \<le> x \<and> x < snd (window c e w k)"
proof -
  have "0 \<le> (x - c) div w" using assms by (simp add: pos_imp_zdiv_nonneg_iff)
  then obtain k where k: "(x - c) div w = int k" by (rule nonneg_int_cases)
  have "((x - c) div w) * w \<le> x - c"
    using assms(1) by (metis div_mult_mod_eq le_add_same_cancel1 pos_mod_sign)
  then have lo: "int k * w \<le> x - c" by (simp only: k)
  have "x - c < ((x - c) div w) * w + w"
    using assms(1) by (metis div_mult_mod_eq add_less_cancel_left pos_mod_bound)
  then have hi: "x - c < int k * w + w" by (simp only: k)
  have "c + int k * w < e" using lo assms(3) by linarith
  then have "k < n_windows c e w" using assms(1) n_windows_less_iff by blast
  moreover have "fst (window c e w k) \<le> x" using lo by (simp add: window_def)
  moreover have "x < snd (window c e w k)"
    using hi assms(3) by (simp add: window_def algebra_simps)
  ultimately show ?thesis by blast
qed

lemma instant_shifted: "instant (shifted d delta) = instant d + delta"
  by (simp add: instant_def shifted_def)

lemma shifted_0: "shifted d 0 = d"
  by (simp add: shifted_def)

lemma shifted_shifted: "shifted (shifted d a) b = shifted d (a + b)"
  by (simp add: shifted_def)

lemma chunk_window_instants:
  "(instant (fst (chunk_window c e w k)), instant (snd (chunk_window c e w k)))
     = window (instant c) (instant e) w k"
  by (simp add: chunk_window_def window_def instant_shifted min_def)

lemma chunk_window_Suc:
  "instant c + w \<le> instant e \<Longrightarrow> 0 < w \<Longrightarrow>
   chunk_window c e w (Suc k) = chunk_window (shifted c w) e w k"
  by (simp add: chunk_window_def shifted_shifted instant_shifted algebra_simps)

lemma next_chunk_end_eq:
  assumes "0 < m" and "m \<le> 86399999999999"
    and "comparable c e" and "0 \<le> wall c"
  shows "next_chunk_end c e m =
     (if wall c + m * 1000000 \<le> max_wall
      then Inr (if instant e < instant c + m * 1000000 then e else shifted c (m * 1000000))
      else Inl OverflowError)"
  using assms
  by (simp add: next_chunk_end_def timedelta_seconds_def dt_add_def dt_min_def dt_less_def
      shifted_def instant_def comparable_def)

lemma chunk_loop_closed:
  assumes "0 < m" and "m \<le> 86399999999999"
  shows "comparable c e \<Longrightarrow> 0 \<le> wall c \<Longrightarrow>
    wall c \<le> max_wall \<Longrightarrow>
    chunk_loop e m c acc =
      Some (if wall c + int (n_windows (instant c) (instant e) (m * 1000000)) * (m * 1000000)
                 \<le> max_wall
            then Inr (acc @ map (chunk_window c e (m * 1000000))
                              [0..<n_windows (instant c) (instant e) (m * 1000000)])
            else Inl OverflowError)"
proof (induction "nat (instant e - instant c)" arbitrary: c acc rule: less_induct)
  case less
  let ?w = "m * 1000000"
  have w: "0 < ?w" using assms(1) by simp
  note cmp = less.prems(1)
  note c0 = less.prems(2)
  show ?case
  proof (cases "instant c < instant e")
    case False
    then have "chunk_loop e m c acc = Some (Inr acc)"
      using cmp by (subst chunk_loop.simps) (simp add: dt_less_def)
    then show ?thesis using n_windows_done[OF w False] less.prems(3) by simp
  next
    case True
    note st = n_windows_step[OF w True]
    have nn: "0 \<le> int (n_windows (min (instant c + ?w) (instant e)) (instant e) ?w) * ?w"
      using w by simp
    show ?thesis
    proof (cases "wall c + ?w \<le> max_wall")
      case False
      then have "chunk_loop e m c acc = Some (Inl OverflowError)"
        using True cmp next_chunk_end_eq[OF assms cmp c0]
        by (subst chunk_loop.simps) (simp add: dt_less_def)
      moreover have "\<not> wall c + int (n_windows (instant c) (instant e) ?w) * ?w \<le> max_wall"
        using False nn unfolding st by (simp add: algebra_simps)
      ultimately show ?thesis by simp
    next
      case fits: True
      show ?thesis
      proof (cases "instant e < instant c + ?w")
        case True
        then have m: "min (instant c + ?w) (instant e) = instant e" by simp
        have n1: "n_windows (instant c) (instant e) ?w = 1"
          using st n_windows_done[OF w, of "instant e" "instant e"] unfolding m by simp
        have "chunk_loop e m c acc = chunk_loop e m e (acc @ [(c, e)])"
          using \<open>instant c < instant e\<close> cmp next_chunk_end_eq[OF assms cmp c0] fits True
          by (subst chunk_loop.simps) (simp add: dt_less_def)
        also have "\<dots> = Some (Inr (acc @ [(c, e)]))"
          by (subst chunk_loop.simps) (simp add: dt_less_def comparable_def)
        finally show ?thesis
          using fits True by (simp add: n1 chunk_window_def shifted_0)
      next
        case False
        let ?c' = "shifted c ?w"
        have m: "min (instant c + ?w) (instant e) = instant c + ?w" using False by simp
        have ic: "instant ?c' = instant c + ?w" by (rule instant_shifted)
        have step: "chunk_loop e m c acc = chunk_loop e m ?c' (acc @ [(c, ?c')])"
          using \<open>instant c < instant e\<close> cmp next_chunk_end_eq[OF assms cmp c0] fits False
          by (subst chunk_loop.simps) (simp add: dt_less_def)
        have lt: "nat (instant e - instant ?c') < nat (instant e - instant c)"
          using \<open>instant c < instant e\<close> w unfolding ic by simp
        have cmp': "comparable ?c' e"
          using cmp by (simp add: shifted_def comparable_def)
        have c0': "0 \<le> wall ?c'" using c0 w by (simp add: shifted_def)
        have c1': "wall ?c' \<le> max_wall" using fits by (simp add: shifted_def)
        have wc: "wall ?c' = wall c + ?w" by (simp add: shifted_def)
        have le: "instant c + ?w \<le> instant e" using False by simp
        have ws: "map (chunk_window c e ?w) (map Suc [0..<n_windows (instant ?c') (instant e) ?w])
            = map (chunk_window ?c' e ?w) [0..<n_windows (instant ?c') (instant e) ?w]"
          using chunk_window_Suc[OF le w] by simp
        have up: "[0..<n_windows (instant c) (instant e) ?w]
            = 0 # map Suc [0..<n_windows (instant ?c') (instant e) ?w]"
          using st unfolding m ic by (simp add: upt_conv_Cons map_Suc_upt del: upt_Suc)
        have w0: "chunk_window c e ?w 0 = (c, ?c')"
          using False by (simp add: chunk_window_def shifted_0)
        have cond: "wall c + int (n_windows (instant c) (instant e) ?w) * ?w
            = wall ?c' + int (n_windows (instant ?c') (instant e) ?w) * ?w"
          using st unfolding m ic wc by (simp add: algebra_simps)
        show ?thesis
          unfolding step less.hyps[OF lt cmp' c0' c1'] cond up
          using w0 ws by simp
      qed
    qed
  qed
qed



lemma chunk_time_range_closed:
  assumes "valid_datetime start_dt" and "comparable start_dt end_dt"
    and "0 < m" and "m \<le> 86399999999999"
  shows "chunk_time_range start_dt end_dt m =
      Some (if last_reading start_dt end_dt m \<le> max_wall
            then Inr (map (chunk_window start_dt end_dt (m * 1000000))
                       [0..<n_windows (instant start_dt) (instant end_dt) (m * 1000000)])
            else Inl OverflowError)"
  using chunk_loop_closed[OF assms(3,4) assms(2), of "[]"] assms(1)
  by (simp add: chunk_time_range_def valid_datetime_def last_reading_def)

lemma chunk_time_range_overflow:
  assumes "valid_datetime start_dt" and "comparable start_dt end_dt"
    and "instant start_dt < instant end_dt" and "0 < m"
    and "86399999999999 < m \<or> max_wall < last_reading start_dt end_dt m"
  shows "chunk_time_range start_dt end_dt m = Some (Inl OverflowError)"
proof (cases "m \<le> 86399999999999")
  case True
  then show ?thesis using assms(5) chunk_time_range_closed[OF assms(1,2,4) True] by simp
next
  case False
  then show ?thesis
    using assms(2,3) unfolding chunk_time_range_def
    by (subst chunk_loop.simps) (simp add: dt_less_def next_chunk_end_def timedelta_seconds_def)
qed

lemma chunk_time_range_scenario_A:
  "chunk_time_range (utc 63839664000000000) (utc 63839923200000000) 86400
   = Some (Inr [(utc 63839664000000000, utc 63839750400000000),
               (utc 63839750400000000, utc 63839836800000000),
               (utc 63839836800000000, utc 63839923200000000)])"
  unfolding chunk_time_range_def
  by (simp add: chunk_loop.simps dt_less_def comparable_def instant_def utc_def next_chunk_end_def
      timedelta_seconds_def dt_add_def dt_min_def max_wall_def)

lemma chunk_time_range_huge_span:
  "chunk_time_range (utc 63839664000000000) (utc 63839923200000000) 100000000000000
   = Some (Inl OverflowError)"
  unfolding chunk_time_range_def
  by (simp add: chunk_loop.simps dt_less_def comparable_def instant_def utc_def next_chunk_end_def
      timedelta_seconds_def)

lemma chunk_time_range_naive_against_aware:
  "chunk_time_range \<lparr>wall = 63839664000000000, utcoffset = None\<rparr> (utc 63839923200000000) 259200
   = Some (Inl TypeError)"
  unfolding chunk_time_range_def
  by (simp add: chunk_loop.simps dt_less_def comparable_def utc_def)

text \<open>
  Claim C1, as stated, covers every \<open>start < end\<close> and every positive \<open>maxSpan\<close>. The
  loop computes \<^verbatim>\<open>current_start + timedelta(seconds=max_chunk_seconds)\<close> before it takes
  the minimum with the end, and that sum leaves the range of datetimes when the start is
  within \<open>maxSpan\<close> of the last datetime: from \<^verbatim>\<open>9999-12-30T00:00:00+00:00\<close> to
  \<^verbatim>\<open>9999-12-31T00:00:00+00:00\<close> with the default of 259200 seconds the function raises
  \<^verbatim>\<open>OverflowError\<close> and returns no windows.
\<close>

theorem chunk_time_range_overflow_counterexample:
  "chunk_time_range (utc 315537724800000000) (utc 315537811200000000) 259200
   = Some (Inl OverflowError)"
  unfolding chunk_time_range_def
  by (simp add: chunk_loop.simps dt_less_def comparable_def instant_def utc_def next_chunk_end_def
      timedelta_seconds_def dt_add_def dt_min_def max_wall_def)

text \<open>
  Claim C1, amended. For every pair of datetimes \<open>start < end\<close> (both aware or both
  naive, the start within the range of datetimes) and every positive \<open>maxSpan\<close> that a
  timedelta can hold (at most 86399999999999 seconds), if the last sum that the loop computes, the start moved by \<open>maxSpan\<close> once
  for each window, does not pass the last datetime, then \<open>chunk_time_range\<close> returns; its
  result is a non-empty list of half-open windows that begins at \<open>start\<close> and ends at the
  instant of \<open>end\<close>, has as many windows as the quotient of the range by \<open>maxSpan\<close>,
  rounded up, every window is non-empty and no longer than \<open>maxSpan\<close>, each window starts
  where the previous one ends, two different windows do not meet, and the windows together
  are exactly \<open>[start, end)\<close>. (By \<open>chunk_time_range_overflow\<close> the function raises
  \<^verbatim>\<open>OverflowError\<close> in every other case with \<open>start < end\<close> and positive \<open>maxSpan\<close>.)
\<close>

theorem chunk_time_range_partition:
  assumes "valid_datetime start_dt" and "comparable start_dt end_dt"
    and "instant start_dt < instant end_dt"
    and "0 < max_chunk_seconds" and "max_chunk_seconds \<le> 86399999999999"
    and "last_reading start_dt end_dt max_chunk_seconds \<le> max_wall"
  shows "\<exists>chunks. chunk_time_range start_dt end_dt max_chunk_seconds = Some (Inr chunks)
    \<and> length chunks =
        nat \<lceil>real_of_int (instant end_dt - instant start_dt)
              / real_of_int (max_chunk_seconds * 1000000)\<rceil>
    \<and> chunks \<noteq> [] \<and> fst (hd chunks) = start_dt \<and> instant (snd (last chunks)) = instant end_dt
    \<and> (\<forall>i < length chunks. instant (fst (chunks ! i)) < instant (snd (chunks ! i))
          \<and> instant (snd (chunks ! i)) - instant (fst (chunks ! i)) \<le> max_chunk_seconds * 1000000)
    \<and> (\<forall>i. Suc i < length chunks \<longrightarrow> fst (chunks ! Suc i) = snd (chunks ! i))
    \<and> (\<forall>i j. i < j \<and> j < length chunks \<longrightarrow>
          {instant (fst (chunks ! i))..<instant (snd (chunks ! i))}
          \<inter> {instant (fst (chunks ! j))..<instant (snd (chunks ! j))} = {})
    \<and> (\<Union>(a, b) \<in> set chunks. {instant a..<instant b}) = {instant start_dt..<instant end_dt}"
proof -
  let ?w = "max_chunk_seconds * 1000000"
  let ?s = "instant start_dt" and ?e = "instant end_dt"
  let ?n = "n_windows ?s ?e ?w"
  let ?ws = "map (chunk_window start_dt end_dt ?w) [0..<?n]"
  have w: "0 < ?w" using assms(4) by simp
  have run: "chunk_time_range start_dt end_dt max_chunk_seconds = Some (Inr ?ws)"
    using chunk_time_range_closed[OF assms(1,2,4,5)] assms(6) by simp
  have fsts: "instant (fst (?ws ! i)) = fst (window ?s ?e ?w i)"
    and snds: "instant (snd (?ws ! i)) = snd (window ?s ?e ?w i)" if "i < ?n" for i
    using that chunk_window_instants[of start_dt end_dt ?w i]
    by (simp_all add: prod_eq_iff del: upt_Suc)
  have pos: "0 < ?n" using n_windows_less_iff[OF w, of 0 ?s ?e] assms(3) by simp
  then obtain k where k: "?n = Suc k" by (cases ?n) auto
  have cnt: "length ?ws = nat \<lceil>real_of_int (?e - ?s) / real_of_int ?w\<rceil>"
    using n_windows_ceiling[OF w] by simp
  have ne: "?ws \<noteq> []" using pos by simp
  have first: "fst (hd ?ws) = start_dt"
    using pos by (simp add: hd_map upt_conv_Cons chunk_window_def shifted_0 del: upt_Suc)
  have "last ?ws = ?ws ! k" using k by (simp add: last_conv_nth del: upt_Suc)
  then have final: "instant (snd (last ?ws)) = ?e"
    using snds[of k] window_last[OF w k] k by simp
  have each: "\<forall>i < length ?ws. instant (fst (?ws ! i)) < instant (snd (?ws ! i))
      \<and> instant (snd (?ws ! i)) - instant (fst (?ws ! i)) \<le> ?w"
  proof (intro allI impI)
    fix i assume "i < length ?ws"
    then have i: "i < ?n" by simp
    show "instant (fst (?ws ! i)) < instant (snd (?ws ! i))
      \<and> instant (snd (?ws ! i)) - instant (fst (?ws ! i)) \<le> ?w"
      unfolding fsts[OF i] snds[OF i] using window_bounds(1,2)[OF w i] by simp
  qed
  have contig: "\<forall>i. Suc i < length ?ws \<longrightarrow> fst (?ws ! Suc i) = snd (?ws ! i)"
  proof (intro allI impI)
    fix i assume "Suc i < length ?ws"
    then have i: "Suc i < ?n" by simp
    then have "?s + int (Suc i) * ?w < ?e" using n_windows_less_iff[OF w] by blast
    then have "\<not> ?e < ?s + (int i + 1) * ?w" by (simp add: algebra_simps)
    then show "fst (?ws ! Suc i) = snd (?ws ! i)"
      using i by (simp add: chunk_window_def algebra_simps del: upt_Suc)
  qed
  have disj: "\<forall>i j. i < j \<and> j < length ?ws \<longrightarrow>
      {instant (fst (?ws ! i))..<instant (snd (?ws ! i))}
      \<inter> {instant (fst (?ws ! j))..<instant (snd (?ws ! j))} = {}"
  proof (intro allI impI)
    fix i j assume ij: "i < j \<and> j < length ?ws"
    then have i: "i < ?n" and j: "j < ?n" by simp_all
    have "instant (snd (?ws ! i)) \<le> instant (fst (?ws ! j))"
      unfolding snds[OF i] fsts[OF j] using window_mono[OF w, of i j ?s ?e] ij by simp
    then show "{instant (fst (?ws ! i))..<instant (snd (?ws ! i))}
      \<inter> {instant (fst (?ws ! j))..<instant (snd (?ws ! j))} = {}"
      by auto
  qed
  have cover: "(\<Union>(a, b) \<in> set ?ws. {instant a..<instant b}) = {?s..<?e}"
  proof (intro set_eqI iffI)
    fix x assume "x \<in> (\<Union>(a, b) \<in> set ?ws. {instant a..<instant b})"
    then obtain p where "p \<in> set ?ws" and x: "instant (fst p) \<le> x" "x < instant (snd p)"
      by (auto simp: case_prod_beta simp del: upt_Suc set_map)
    then obtain i where i: "i < ?n" and p: "p = ?ws ! i"
      by (metis in_set_conv_nth length_map length_upt diff_zero)
    show "x \<in> {?s..<?e}"
      using x window_bounds(3,4)[OF w i] unfolding p fsts[OF i] snds[OF i] by simp
  next
    fix x assume "x \<in> {?s..<?e}"
    then obtain i where i: "i < ?n" and x: "fst (window ?s ?e ?w i) \<le> x" "x < snd (window ?s ?e ?w i)"
      using window_cover[OF w, of ?s x ?e] by auto
    have "?ws ! i \<in> set ?ws" using i by (intro nth_mem) simp
    moreover have "x \<in> {instant (fst (?ws ! i))..<instant (snd (?ws ! i))}"
      using x unfolding fsts[OF i] snds[OF i] by simp
    ultimately show "x \<in> (\<Union>(a, b) \<in> set ?ws. {instant a..<instant b})"
      by (auto simp: case_prod_beta simp del: upt_Suc set_map)
  qed
  show ?thesis
    using run cnt ne first final each contig disj cover by blast
qed


theorem chunk_time_range_partition_witness:
  "valid_datetime (utc 63839664000000000)
   \<and> comparable (utc 63839664000000000) (utc 63839923200000000)
   \<and> instant (utc 63839664000000000) < instant (utc 63839923200000000)
   \<and> (0::int) < 86400 \<and> (86400::int) \<le> 86399999999999
   \<and> last_reading (utc 63839664000000000) (utc 63839923200000000) 86400 \<le> max_wall
   \<and> (\<exists>chunks. chunk_time_range (utc 63839664000000000) (utc 63839923200000000) 86400
          = Some (Inr chunks)
    \<and> length chunks =
        nat \<lceil>real_of_int (instant (utc 63839923200000000) - instant (utc 63839664000000000))
              / real_of_int (86400 * 1000000)\<rceil>
    \<and> chunks \<noteq> [] \<and> fst (hd chunks) = utc 63839664000000000
    \<and> instant (snd (last chunks)) = instant (utc 63839923200000000)
    \<and> (\<forall>i < length chunks. instant (fst (chunks ! i)) < instant (snd (chunks ! i))
          \<and> instant (snd (chunks ! i)) - instant (fst (chunks ! i)) \<le> 86400 * 1000000)
    \<and> (\<forall>i. Suc i < length chunks \<longrightarrow> fst (chunks ! Suc i) = snd (chunks ! i))
    \<and> (\<forall>i j. i < j \<and> j < length chunks \<longrightarrow>
          {instant (fst (chunks ! i))..<instant (snd (chunks ! i))}
          \<inter> {instant (fst (chunks ! j))..<instant (snd (chunks ! j))} = {})
    \<and> (\<Union>(a, b) \<in> set chunks. {instant a..<instant b})
        = {instant (utc 63839664000000000)..<instant (utc 63839923200000000)})"
proof -
  have h: "valid_datetime (utc 63839664000000000)"
    "comparable (utc 63839664000000000) (utc 63839923200000000)"
    "instant (utc 63839664000000000) < instant (utc 63839923200000000)"
    "(0::int) < 86400" "(86400::int) \<le> 86399999999999"
    "last_reading (utc 63839664000000000) (utc 63839923200000000) 86400 \<le> max_wall"
    by (simp_all add: valid_datetime_def comparable_def instant_def utc_def max_wall_def
        last_reading_def n_windows_def)
  show ?thesis
    using h chunk_time_range_partition [OF h] by blast
qed

text \<open>
  Claim C4, as stated, asks for an \<open>InvalidRangeError\<close> when \<open>start \<ge> end\<close>. The source
  has no such check: the loop condition is false at once and the function returns the empty
  list. Counterexample with the start three days after the end: a normal return.
\<close>

theorem chunk_time_range_inverted_counterexample:
  "chunk_time_range (utc 63839923200000000) (utc 63839664000000000) 259200 = Some (Inr [])"
  unfolding chunk_time_range_def
  by (subst chunk_loop.simps) (simp add: dt_less_def comparable_def instant_def utc_def)

text \<open>
  Claim C4, amended. For every input with \<open>start \<ge> end\<close> (both aware or both naive, so
  that they compare), whatever the maximal width, \<open>chunk_time_range\<close> returns normally and
  its result is the empty list of windows.
\<close>

theorem chunk_time_range_inverted_empty:
  "comparable start_dt end_dt \<Longrightarrow> instant end_dt \<le> instant start_dt \<Longrightarrow>
   chunk_time_range start_dt end_dt max_chunk_seconds = Some (Inr [])"
  unfolding chunk_time_range_def by (subst chunk_loop.simps) (simp add: dt_less_def)

theorem chunk_time_range_inverted_empty_witness:
  "comparable (utc 63839664000000000) (utc 63839664000000000)
   \<and> instant (utc 63839664000000000) \<le> instant (utc 63839664000000000)
   \<and> chunk_time_range (utc 63839664000000000) (utc 63839664000000000) 259200 = Some (Inr [])"
  using chunk_time_range_inverted_empty [of "utc 63839664000000000" "utc 63839664000000000" 259200]
  by (simp add: comparable_def)

section \<open>Properties of the Stats Aggregator\<close>

lemma map_of_add_requests:
  "map_of (add_requests a (p, r)) = (map_of a)(p \<mapsto> count_of p a + r)"
  by (simp add: update_conv' count_of_def split: option.splits)

lemma count_of_add_requests:
  "count_of k (add_requests a (p, r)) = (if k = p then count_of p a + r else count_of k a)"
  by (simp add: count_of_def update_conv' split: option.splits)

lemma has_label_iff: "has_label k a \<longleftrightarrow> map_of a k \<noteq> None"
  unfolding has_label_def by (simp add: map_of_eq_None_iff)

lemma has_label_add_requests:
  "has_label k (add_requests a (p, r)) \<longleftrightarrow> k = p \<or> has_label k a"
  unfolding has_label_iff map_of_add_requests by simp

lemma count_of_absent: "\<not> has_label k a \<Longrightarrow> count_of k a = 0"
  by (simp add: has_label_iff count_of_def)

lemma fold_entries:
  "well_formed stats \<Longrightarrow>
   (has_label k (foldl add_requests a stats) \<longleftrightarrow> has_label k a \<or> has_label k stats)
   \<and> count_of k (foldl add_requests a stats) = count_of k a + count_of k stats"
proof (induction stats arbitrary: a)
  case Nil
  then show ?case by (simp add: has_label_def count_of_def)
next
  case (Cons e stats)
  obtain p r where e: "e = (p, r)" by (cases e)
  have wf: "well_formed stats" and np: "\<not> has_label p stats"
    using Cons.prems by (auto simp: well_formed_def e has_label_def)
  note IH = Cons.IH[OF wf, of "add_requests a (p, r)"]
  have h: "has_label k ((p, r) # stats) \<longleftrightarrow> k = p \<or> has_label k stats"
    by (auto simp: has_label_def)
  have c: "count_of k ((p, r) # stats) = (if k = p then r else count_of k stats)"
    by (simp add: count_of_def)
  show ?case
    using IH np count_of_absent[OF np]
    by (auto simp add: e h c has_label_add_requests count_of_add_requests simp del: add_requests.simps)
qed


lemma fold_stats:
  "list_all well_formed xs \<Longrightarrow>
   (has_label k (foldl (\<lambda>aggregated stats. foldl add_requests aggregated stats) a xs)
      \<longleftrightarrow> has_label k a \<or> list_ex (has_label k) xs)
   \<and> count_of k (foldl (\<lambda>aggregated stats. foldl add_requests aggregated stats) a xs)
      = count_of k a + sum_list (map (count_of k) xs)"
proof (induction xs arbitrary: a)
  case Nil
  then show ?case by simp
next
  case (Cons d xs)
  then have wf: "well_formed d" and wfs: "list_all well_formed xs" by simp_all
  show ?case
    using Cons.IH[OF wfs, of "foldl add_requests a d"] fold_entries[OF wf, of k a]
    by auto
qed

lemma map_of_by_count:
  "map_of a k = (if has_label k a then Some (count_of k a) else None)"
  by (auto simp: has_label_iff count_of_def)

lemma aggregate_tls_stats_sum:
  assumes "list_all well_formed xs"
  shows "map_of (aggregate_tls_stats xs) = elementwise_sum xs"
proof
  fix k
  have e: "\<not> has_label k []" "count_of k [] = 0" by (simp_all add: has_label_def count_of_def)
  show "map_of (aggregate_tls_stats xs) k = elementwise_sum xs k"
    unfolding aggregate_tls_stats_def elementwise_sum_def
    using fold_stats[OF assms, of k "[]"] e
    by (subst map_of_by_count) simp
qed

lemma global_update_fold: "global_update g d = foldl add_requests g d"
  by (simp add: global_update_def)

lemma global_tls_stats_aggregate: "global_tls_stats zs = aggregate_tls_stats zs"
proof -
  have "global_update = (\<lambda>aggregated stats. foldl add_requests aggregated stats)"
    by (intro ext) (rule global_update_fold)
  then show ?thesis by (simp add: global_tls_stats_def aggregate_tls_stats_def)
qed

lemma elementwise_sum_perm:
  assumes "mset xs = mset ys"
  shows "elementwise_sum xs = elementwise_sum ys"
proof
  fix k
  have s: "set xs = set ys" using assms by (rule mset_eq_setD)
  have "mset (map (count_of k) xs) = mset (map (count_of k) ys)" using assms by simp
  then have "sum_list (map (count_of k) xs) = sum_list (map (count_of k) ys)"
    by (metis sum_mset_sum_list)
  then show "elementwise_sum xs k = elementwise_sum ys k"
    using s by (simp add: elementwise_sum_def list_ex_iff)
qed


text \<open>
  Claim C2. For a list of well-formed protocol-count dicts and any permutation of it,
  \<open>aggregate_tls_stats\<close> returns the same mapping on both (Python dict equality is equality
  of the mappings; the insertion order of the keys may differ), and so does the accumulation
  of the global statistics over the zones.
\<close>

theorem aggregate_tls_stats_order_independent:
  assumes "list_all well_formed stats_list" and "mset permuted = mset stats_list"
  shows "map_of (aggregate_tls_stats permuted) = map_of (aggregate_tls_stats stats_list)
       \<and> map_of (global_tls_stats permuted) = map_of (global_tls_stats stats_list)"
proof -
  have "set permuted = set stats_list" using assms(2) by (rule mset_eq_setD)
  then have wf: "list_all well_formed permuted" using assms(1) by (simp add: list_all_iff)
  show ?thesis
    using aggregate_tls_stats_sum[OF wf] aggregate_tls_stats_sum[OF assms(1)]
      elementwise_sum_perm[OF assms(2)]
    by (simp add: global_tls_stats_aggregate)
qed

theorem aggregate_tls_stats_order_independent_witness:
  "list_all well_formed [[(''TLSv1.2'', 100), (''TLSv1.3'', 50)], [(''TLSv1.3'', 25)]]
   \<and> mset [[(''TLSv1.3'', 25::int)], [(''TLSv1.2'', 100), (''TLSv1.3'', 50)]]
       = mset [[(''TLSv1.2'', 100), (''TLSv1.3'', 50)], [(''TLSv1.3'', 25)]]
   \<and> map_of (aggregate_tls_stats [[(''TLSv1.3'', 25)], [(''TLSv1.2'', 100), (''TLSv1.3'', 50)]])
       = map_of (aggregate_tls_stats [[(''TLSv1.2'', 100), (''TLSv1.3'', 50)], [(''TLSv1.3'', 25)]])
   \<and> map_of (global_tls_stats [[(''TLSv1.3'', 25)], [(''TLSv1.2'', 100), (''TLSv1.3'', 50)]])
       = map_of (global_tls_stats [[(''TLSv1.2'', 100), (''TLSv1.3'', 50)], [(''TLSv1.3'', 25)]])"
proof -
  have wf: "list_all well_formed [[(''TLSv1.2'', 100), (''TLSv1.3'', 50)], [(''TLSv1.3'', 25)]]"
    by (simp add: well_formed_def)
  have p: "mset [[(''TLSv1.3'', 25::int)], [(''TLSv1.2'', 100), (''TLSv1.3'', 50)]]
       = mset [[(''TLSv1.2'', 100), (''TLSv1.3'', 50)], [(''TLSv1.3'', 25)]]"
    by (simp add: add.commute)
  show ?thesis
    using wf p aggregate_tls_stats_order_independent [OF wf p] by blast
qed

text \<open>
  Claim C3. The global statistics accumulated over the zones denote the element-wise sum of
  the per-zone mappings, and for the two zones of scenario B the global dict is
  \<open>{TLSv1.2: 100, TLSv1.3: 75}\<close>.
\<close>

theorem global_tls_stats_elementwise:
  assumes "list_all well_formed zone_stats"
  shows "map_of (global_tls_stats zone_stats) = elementwise_sum zone_stats
       \<and> global_tls_stats [[(''TLSv1.2'', 100), (''TLSv1.3'', 50)], [(''TLSv1.3'', 25)]]
           = [(''TLSv1.2'', 100), (''TLSv1.3'', 75)]"
proof -
  have "global_tls_stats [[(''TLSv1.2'', 100), (''TLSv1.3'', 50)], [(''TLSv1.3'', 25)]]
      = [(''TLSv1.2'', 100), (''TLSv1.3'', 75)]"
    by (simp add: global_tls_stats_def global_update_def)
  then show ?thesis
    using aggregate_tls_stats_sum[OF assms] by (simp add: global_tls_stats_aggregate)
qed

theorem global_tls_stats_elementwise_witness:
  "list_all well_formed [[(''TLSv1.2'', 100), (''TLSv1.3'', 50)], [(''TLSv1.3'', 25)]]
   \<and> map_of (global_tls_stats [[(''TLSv1.2'', 100), (''TLSv1.3'', 50)], [(''TLSv1.3'', 25)]])
       = elementwise_sum [[(''TLSv1.2'', 100), (''TLSv1.3'', 50)], [(''TLSv1.3'', 25)]]
   \<and> elementwise_sum [[(''TLSv1.2'', 100), (''TLSv1.3'', 50)], [(''TLSv1.3'', 25)]] ''TLSv1.3''
       = Some 75"
proof -
  have wf: "list_all well_formed [[(''TLSv1.2'', 100), (''TLSv1.3'', 50)], [(''TLSv1.3'', 25)]]"
    by (simp add: well_formed_def)
  have "elementwise_sum [[(''TLSv1.2'', 100), (''TLSv1.3'', 50)], [(''TLSv1.3'', 25)]] ''TLSv1.3''
      = Some 75"
    by (simp add: elementwise_sum_def has_label_def count_of_def)
  then show ?thesis
    using wf global_tls_stats_elementwise [OF wf] by blast
qed

section \<open>Properties of the Query Executor\<close>

text \<open>
  A response whose \<^verbatim>\<open>errors\<close> entry is \<^verbatim>\<open>null\<close>: both versions of the executor return
  the response; the one of \<^verbatim>\<open>q1.py\<close> prints the warning, the one of \<^verbatim>\<open>q3.py\<close> never
  does.
\<close>

lemma execute_graphql_query_null_errors:
  assumes "map_of kvs ''errors'' = Some JNull"
  shows "fst (execute_graphql_query verbose (Body (JObj kvs))) = Inr (Some (JObj kvs))"
    and "NullErrorsWarning \<notin> set (snd (execute_graphql_query verbose (Body (JObj kvs))))"
    and "fst (execute_graphql_query_q1 (Body (JObj kvs))) = Inr (Some (JObj kvs))"
    and "NullErrorsWarning \<in> set (snd (execute_graphql_query_q1 (Body (JObj kvs))))"
  using assms
  by (simp_all add: execute_graphql_query_def execute_graphql_query_q1_def errors_field_def)

text \<open>
  Claim C9 says that a response with \<^verbatim>\<open>"errors": null\<close> is returned as a success and
  flagged. Evaluated on such a response, the executor of \<^verbatim>\<open>q3.py\<close> returns the response
  and prints nothing at all, while on the same response the executor of \<^verbatim>\<open>q1.py\<close> ends
  its output with the warning.
\<close>

theorem execute_graphql_query_null_errors_unflagged:
  "execute_graphql_query False
     (Body (JObj [(''data'', JObj [(''viewer'', JObj [(''zones'', JArr [])])]), (''errors'', JNull)]))
   = (Inr (Some (JObj [(''data'', JObj [(''viewer'', JObj [(''zones'', JArr [])])]), (''errors'', JNull)])), [])
   \<and> snd (execute_graphql_query_q1
     (Body (JObj [(''data'', JObj [(''viewer'', JObj [(''zones'', JArr [])])]), (''errors'', JNull)])))
   = [MakingRequest, PrintHeaders, PrintPayload, ResponseStatus, ResponseHeaders,
      FullResponse (JObj [(''data'', JObj [(''viewer'', JObj [(''zones'', JArr [])])]), (''errors'', JNull)]),
      NullErrorsWarning]"
  by (simp add: execute_graphql_query_def execute_graphql_query_q1_def errors_field_def)

section \<open>Properties of the Zone Directory\<close>

lemma rest_page_empty:
  assumes "empty_page outcome"
  shows "\<exists>result. rest_page outcome page zones = Leave result"
proof -
  obtain kvs where o: "outcome = Body (JObj kvs)"
    and r: "map_of kvs ''result'' = None \<or> (\<exists>v. map_of kvs ''result'' = Some v \<and> \<not> truthy v)"
    using assms
    by (auto simp: empty_page_def split: http_outcome.splits json.splits option.splits)
  show ?thesis
    using r by (auto simp: o rest_page_def split: option.splits)
qed

lemma rest_loop_stops:
  assumes "empty_page (listing p)"
  shows "page \<le> p \<Longrightarrow> \<exists>result q. rest_loop listing page zones = Some (result, q) \<and> q \<le> p"
proof (induction "p - page" arbitrary: page zones)
  case 0
  then have "page = p" by simp
  then show ?case
    using rest_page_empty[OF assms, of p zones]
    by (subst rest_loop.simps) auto
next
  case (Suc d)
  show ?case
  proof (cases "rest_page (listing page) page zones")
    case (Leave result)
    then have "rest_loop listing page zones = Some (result, page)"
      by (subst rest_loop.simps) simp
    then show ?thesis using Suc.prems by simp
  next
    case (NextPage zones')
    then have step: "rest_loop listing page zones = rest_loop listing (page + 1) zones'"
      by (subst rest_loop.simps) simp
    have "d = p - (page + 1)" "page + 1 \<le> p" using Suc.hyps(2) by simp_all
    then show ?thesis using Suc.hyps(1)[of "page + 1" zones'] step by simp
  qed
qed

text \<open>
  Claim C10. Whatever the listing endpoint answers on the other pages and whatever
  \<^verbatim>\<open>total_pages\<close> says, if page \<open>p\<close> has an empty result list then the pagination loop
  returns, the page counter is at most \<open>p\<close> when it does, and a loop that reaches page
  \<open>p\<close> is left on that very page.
\<close>

theorem rest_loop_stops_at_empty_page:
  assumes "empty_page (listing p)" and "1 \<le> p"
  shows "(\<exists>result page. get_all_zones_rest_api listing = Some (result, page) \<and> page \<le> p)
       \<and> (\<exists>result. rest_loop listing p zones = Some (result, p))"
proof -
  have "\<exists>result. rest_loop listing p zones = Some (result, p)"
    using rest_page_empty[OF assms(1), of p zones] by (subst rest_loop.simps) auto
  then show ?thesis
    using rest_loop_stops[of listing p 1 "[]"] assms
    by (simp add: get_all_zones_rest_api_def)
qed

theorem rest_loop_stops_at_empty_page_witness:
  "empty_page (overstating_listing 3) \<and> (1::nat) \<le> 3
   \<and> (\<exists>result page. get_all_zones_rest_api overstating_listing = Some (result, page) \<and> page \<le> 3)
   \<and> (\<exists>result. rest_loop overstating_listing 3 [] = Some (result, 3))"
proof -
  have e: "empty_page (overstating_listing 3)"
    by (simp add: empty_page_def overstating_listing_def)
  show ?thesis
    using e rest_loop_stops_at_empty_page [of overstating_listing 3 "[]"] by simp
qed

lemma overstating_listing_run:
  "get_all_zones_rest_api overstating_listing
   = Some (Inr [\<lparr>zoneTag = JStr ''z1'', name = JStr ''example.com''\<rparr>,
               \<lparr>zoneTag = JStr ''z1'', name = JStr ''example.com''\<rparr>], 3)"
  by (simp add: get_all_zones_rest_api_def rest_loop.simps rest_page_def overstating_listing_def)

lemma and_then_Inr: "and_then m f = Inr y \<longleftrightarrow> (\<exists>x. m = Inr x \<and> f x = Inr y)"
  by (cases m) auto

lemma gql_zone_list_names:
  "gql_zone_list items zone_list = Inr zones \<Longrightarrow> list_all (\<lambda>z. name z = zoneTag z) zone_list
   \<Longrightarrow> list_all (\<lambda>z. name z = zoneTag z) zones"
proof (induction items arbitrary: zone_list)
  case Nil
  then show ?case by simp
next
  case (Cons z items)
  then show ?case
    by (cases "subscript z ''zoneTag''") auto
qed

lemma graphql_zones_names:
  "graphql_zones verbose outcome = Inr zones \<Longrightarrow> list_all (\<lambda>z. name z = zoneTag z) zones"
proof -
  assume a: "graphql_zones verbose outcome = Inr zones"
  show ?thesis
  proof (cases "zones = []")
    case True
    then show ?thesis by simp
  next
    case False
    then obtain response_data where "zones_of_response response_data = Inr zones"
      using a by (auto simp: graphql_zones_def split: sum.splits option.splits if_splits)
    then obtain items where "gql_zone_list items [] = Inr zones"
      using False
      by (auto simp: zones_of_response_def and_then_Inr split: sum.splits py_error.splits)
    then show ?thesis using gql_zone_list_names[of items "[]" zones] by simp
  qed
qed

lemma get_all_zones_primary_first:
  "get_all_zones_rest_api listing = Some (Inr zones, page) \<Longrightarrow>
   get_all_zones listing zones_query verbose =
     Some (if zones \<noteq> [] then (Inr zones, 0) else (graphql_zones verbose zones_query, 1))"
  by (simp add: get_all_zones_def)

lemma get_all_zones_fallback_names:
  assumes "get_all_zones listing zones_query verbose = Some (Inr zones, 1)"
  shows "list_all (\<lambda>z. name z = zoneTag z) zones"
proof -
  have "graphql_zones verbose zones_query = Inr zones"
    using assms
    by (auto simp: get_all_zones_def split: option.splits sum.splits if_splits)
  then show ?thesis by (rule graphql_zones_names)
qed

lemma graphql_zones_query_failure:
  "fst (execute_graphql_query verbose outcome) = Inr None \<Longrightarrow> graphql_zones verbose outcome = Inr []"
  by (simp add: graphql_zones_def)

text \<open>
  Claim C5 says that no exception leaves zone discovery when both mechanisms yield nothing.
  The handler around the fallback catches \<^verbatim>\<open>KeyError\<close> only. Evaluated with a listing
  endpoint that cannot be reached and the answer
  \<^verbatim>\<open>{"data": {"viewer": null}, "errors": null}\<close> to the zones query,
  \<^verbatim>\<open>get_all_zones\<close> sends the one zones query and is left by a \<^verbatim>\<open>TypeError\<close>.
\<close>

theorem get_all_zones_null_viewer_raises:
  "get_all_zones (\<lambda>page. ConnectionFailed)
     (Body (JObj [(''data'', JObj [(''viewer'', JNull)]), (''errors'', JNull)])) False
   = Some (Inl TypeError, 1)"
  by (simp add: get_all_zones_def get_all_zones_rest_api_def rest_loop.simps rest_page_def
      graphql_zones_def execute_graphql_query_def errors_field_def zones_of_response_def)

section \<open>Properties of the File Exporter\<close>

lemma digit_cases: "d < 10 \<Longrightarrow> d \<in> {0, 1, 2, 3, 4, 5, 6, 7, 8, 9::nat}"
  by auto

lemma digit_value_char: "d < 10 \<Longrightarrow> digit_value (digit_char d) = Some d"
  using digit_cases[of d] by (auto simp: digit_value_def digit_char_def)

lemma digit_char_plain: "d < 10 \<Longrightarrow> digit_char d \<notin> {CHR '';'', newline, CHR ''-''}"
  using digit_cases[of d] by (auto simp: digit_char_def newline_def)

lemma parse_digits_append:
  "parse_digits acc (xs @ ys) = (case parse_digits acc xs of None \<Rightarrow> None | Some a \<Rightarrow> parse_digits a ys)"
  by (induction xs arbitrary: acc) (auto split: option.splits)

lemma parse_digits_str_nat: "parse_digits 0 (str_nat n) = Some n"
proof (induction n rule: str_nat.induct)
  case (1 n)
  show ?case
  proof (cases "n < 10")
    case True
    then show ?thesis by (subst str_nat.simps) (simp add: digit_value_char)
  next
    case False
    have "n mod 10 < 10" by simp
    then show ?thesis
      using False "1"
      by (subst str_nat.simps) (simp add: parse_digits_append digit_value_char)
  qed
qed

lemma str_nat_not_empty: "str_nat n \<noteq> []"
  by (subst str_nat.simps) simp

lemma str_nat_chars: "set (str_nat n) \<inter> {CHR '';'', newline, CHR ''-''} = {}"
proof (induction n rule: str_nat.induct)
  case (1 n)
  have m: "n mod 10 < 10" by simp
  show ?case
  proof (cases "n < 10")
    case True
    then show ?thesis using digit_char_plain[OF True] by (subst str_nat.simps) simp
  next
    case False
    then show ?thesis using "1" digit_char_plain[OF m] by (subst str_nat.simps) auto
  qed
qed

lemma parse_int_str_int: "parse_int (str_int i) = Some i"
proof (cases "i < 0")
  case True
  then show ?thesis
    by (simp add: parse_int_def str_int_def parse_nat_def str_nat_not_empty parse_digits_str_nat)
next
  case False
  obtain c cs where s: "str_nat (nat i) = c # cs"
    using str_nat_not_empty[of "nat i"] by (cases "str_nat (nat i)") auto
  have "c \<noteq> CHR ''-''" using str_nat_chars[of "nat i"] s by auto
  then show ?thesis
    using False s parse_digits_str_nat[of "nat i"]
    by (simp add: parse_int_def str_int_def parse_nat_def)
qed

lemma str_int_plain: "CHR '';'' \<notin> set (str_int i) \<and> newline \<notin> set (str_int i)"
  using str_nat_chars[of "nat i"] str_nat_chars[of "nat (- i)"]
  by (auto simp: str_int_def newline_def)

lemma split_on_plain: "sep \<notin> set a \<Longrightarrow> split_on sep a = [a]"
  by (induction a) auto

lemma split_on_append: "sep \<notin> set a \<Longrightarrow> split_on sep (a @ sep # rest) = a # split_on sep rest"
  by (induction a) (auto split: list.splits)


lemma export_line_body:
  "export_line zone_name zone_tag item =
     (zone_name @ CHR '';'' # zone_tag @ CHR '';'' # fst item @ CHR '';'' # str_int (snd item)) @ [newline]"
  by (simp add: export_line_def)

lemma parse_line_body:
  assumes "plain zone_name" and "plain zone_tag" and "plain protocol"
  shows "parse_line (zone_name @ CHR '';'' # zone_tag @ CHR '';'' # protocol @ CHR '';'' # str_int n)
       = Some (zone_name, zone_tag, protocol, n)"
  using assms str_int_plain[of n]
  by (simp add: parse_line_def plain_def split_on_append split_on_plain parse_int_str_int)

lemma body_no_newline:
  assumes "plain zone_name" and "plain zone_tag" and "plain protocol"
  shows "newline \<notin> set (zone_name @ CHR '';'' # zone_tag @ CHR '';'' # protocol @ CHR '';'' # str_int n)"
  using assms str_int_plain[of n] by (auto simp: plain_def newline_def)

lemma split_lines:
  "list_all (\<lambda>b. newline \<notin> set b) bodies \<Longrightarrow>
   split_on newline (concat (map (\<lambda>b. b @ [newline]) bodies)) = bodies @ [[]]"
  by (induction bodies) (simp_all add: split_on_append)

lemma those_map:
  "list_all (\<lambda>x. f x = Some (g x)) xs \<Longrightarrow> those (map f xs) = Some (map g xs)"
  by (induction xs) simp_all

lemma parse_export_lines:
  assumes "plain zone_name" and "plain zone_tag" and "list_all (\<lambda>item. plain (fst item)) items"
  shows "parse_export (concat (map (export_line zone_name zone_tag) items))
       = Some (map (\<lambda>item. (zone_name, zone_tag, fst item, snd item)) items)"
proof -
  let ?body = "\<lambda>item. zone_name @ CHR '';'' # zone_tag @ CHR '';'' # fst item @ CHR '';'' # str_int (snd item)"
  have e: "map (export_line zone_name zone_tag) items = map (\<lambda>b. b @ [newline]) (map ?body items)"
    by (simp add: export_line_body)
  have nl: "list_all (\<lambda>b. newline \<notin> set b) (map ?body items)"
    unfolding list_all_iff
  proof
    fix b assume "b \<in> set (map ?body items)"
    then obtain item where "item \<in> set items" and b: "b = ?body item" by auto
    then have "plain (fst item)" using assms(3) by (simp add: list_all_iff)
    then show "newline \<notin> set b" unfolding b by (rule body_no_newline[OF assms(1,2)])
  qed
  have p: "list_all (\<lambda>item. parse_line (?body item) = Some (zone_name, zone_tag, fst item, snd item)) items"
    unfolding list_all_iff
  proof
    fix item assume "item \<in> set items"
    then have "plain (fst item)" using assms(3) by (simp add: list_all_iff)
    then show "parse_line (?body item) = Some (zone_name, zone_tag, fst item, snd item)"
      by (rule parse_line_body[OF assms(1,2)])
  qed
  have "parse_export (concat (map (export_line zone_name zone_tag) items))
      = those (map (\<lambda>item. parse_line (?body item)) items)"
    unfolding parse_export_def e split_lines[OF nl] by (simp add: comp_def)
  then show ?thesis using those_map[OF p] by simp
qed

lemma parsed_counts_rows:
  "parsed_counts (map (\<lambda>item. (zone_name, zone_tag, fst item, snd item)) items) = items"
  by (simp add: parsed_counts_def comp_def)

lemma sorted_stats_mset: "mset (sorted_stats tls_stats) = mset tls_stats"
  by (simp add: sorted_stats_def)

lemma sorted_stats_map_of:
  assumes "well_formed tls_stats"
  shows "map_of (sorted_stats tls_stats) = map_of tls_stats"
proof -
  have "mset (map fst (sorted_stats tls_stats)) = mset (map fst tls_stats)"
    using sorted_stats_mset[of tls_stats] by (metis mset_map)
  then have d: "distinct (map fst (sorted_stats tls_stats))"
    using assms mset_eq_imp_distinct_iff unfolding well_formed_def by blast
  have "set (sorted_stats tls_stats) = set tls_stats"
    using sorted_stats_mset[of tls_stats] by (rule mset_eq_setD)
  then show ?thesis
    using d assms map_of_inject_set unfolding well_formed_def by blast
qed

lemma export_example:
  "export_zone_tls_stats ''example.com'' ''z1'' [(''TLSv1.2'', 100), (''TLSv1.3'', 250), (''none'', 0)] True []
   = ''example.com;z1;TLSv1.3;250'' @ [newline] @ ''example.com;z1;TLSv1.2;100'' @ [newline] @ ''example.com;z1;none;0'' @ [newline]"
  by (simp add: export_zone_tls_stats_def sorted_stats_def export_line_def str_int_def str_nat.simps digit_char_def)

text \<open>
  Claim C8, as stated, says that zero-count entries are never written. The exporter writes
  every entry of a non-empty report: for a zone whose only entry has the count 0, the line
  with that count is written.
\<close>

theorem export_zone_tls_stats_zero_count_counterexample:
  "export_zone_tls_stats ''example.com'' ''z1'' [(''TLSv1.2'', 0)] True [] = ''example.com;z1;TLSv1.2;0'' @ [newline]"
  by (simp add: export_zone_tls_stats_def sorted_stats_def export_line_def str_int_def str_nat.simps digit_char_def)

text \<open>
  Claim C8, amended. Exporting a non-empty zone report to a writable file appends one line
  \<open>zoneName;zoneIdentifier;protocolLabel;count\<close> for every entry of the report, entries of
  count zero included, in descending order of count; if the zone name, the identifier and
  the labels contain no semicolon and no line break, reading the appended lines back gives
  rows with that name and identifier whose label and count pairs are exactly the entries of
  the report, and so exactly its mapping.
\<close>

theorem export_zone_tls_stats_round_trip:
  assumes "tls_stats \<noteq> []" and "well_formed tls_stats"
    and "plain zone_name" and "plain zone_tag"
    and "list_all (\<lambda>item. plain (fst item)) tls_stats"
  shows "\<exists>appended rows.
      export_zone_tls_stats zone_name zone_tag tls_stats True file = file @ appended
    \<and> appended = concat (map (export_line zone_name zone_tag) (sorted_stats tls_stats))
    \<and> parse_export appended = Some rows
    \<and> rows = map (\<lambda>item. (zone_name, zone_tag, fst item, snd item)) (sorted_stats tls_stats)
    \<and> sorted (map (\<lambda>item. - snd item) (parsed_counts rows))
    \<and> mset (parsed_counts rows) = mset tls_stats
    \<and> map_of (parsed_counts rows) = map_of tls_stats"
proof -
  have "set (sorted_stats tls_stats) = set tls_stats"
    using sorted_stats_mset[of tls_stats] by (rule mset_eq_setD)
  then have pl: "list_all (\<lambda>item. plain (fst item)) (sorted_stats tls_stats)"
    using assms(5) by (simp add: list_all_iff)
  let ?rows = "map (\<lambda>item. (zone_name, zone_tag, fst item, snd item)) (sorted_stats tls_stats)"
  have w: "export_zone_tls_stats zone_name zone_tag tls_stats True file
      = file @ concat (map (export_line zone_name zone_tag) (sorted_stats tls_stats))"
    using assms(1) by (simp add: export_zone_tls_stats_def)
  have c: "parsed_counts ?rows = sorted_stats tls_stats" by (rule parsed_counts_rows)
  have "mset (parsed_counts ?rows) = mset tls_stats"
    unfolding c by (rule sorted_stats_mset)
  moreover have "map_of (parsed_counts ?rows) = map_of tls_stats"
    unfolding c by (rule sorted_stats_map_of[OF assms(2)])
  moreover have "sorted (map (\<lambda>item. - snd item) (parsed_counts ?rows))"
    unfolding c by (simp add: sorted_stats_def)
  ultimately show ?thesis
    using w parse_export_lines[OF assms(3,4) pl] by blast
qed

theorem export_zone_tls_stats_round_trip_witness:
  "[(''TLSv1.2'', 100), (''TLSv1.3'', 250), (''none'', 0)] \<noteq> []
   \<and> well_formed [(''TLSv1.2'', 100), (''TLSv1.3'', 250), (''none'', 0)]
   \<and> plain ''example.com'' \<and> plain ''z1''
   \<and> list_all (\<lambda>item. plain (fst item)) [(''TLSv1.2'', 100::int), (''TLSv1.3'', 250), (''none'', 0)]
   \<and> (\<exists>appended rows.
      export_zone_tls_stats ''example.com'' ''z1'' [(''TLSv1.2'', 100), (''TLSv1.3'', 250), (''none'', 0)] True ''old'' = ''old'' @ appended
    \<and> appended = concat (map (export_line ''example.com'' ''z1'') (sorted_stats [(''TLSv1.2'', 100), (''TLSv1.3'', 250), (''none'', 0)]))
    \<and> parse_export appended = Some rows
    \<and> rows = map (\<lambda>item. (''example.com'', ''z1'', fst item, snd item)) (sorted_stats [(''TLSv1.2'', 100), (''TLSv1.3'', 250), (''none'', 0)])
    \<and> sorted (map (\<lambda>item. - snd item) (parsed_counts rows))
    \<and> mset (parsed_counts rows) = mset [(''TLSv1.2'', 100), (''TLSv1.3'', 250), (''none'', 0)]
    \<and> map_of (parsed_counts rows) = map_of [(''TLSv1.2'', 100), (''TLSv1.3'', 250), (''none'', 0)])"
proof -
  have h: "[(''TLSv1.2'', 100::int), (''TLSv1.3'', 250), (''none'', 0)] \<noteq> []"
    "well_formed [(''TLSv1.2'', 100), (''TLSv1.3'', 250), (''none'', 0)]"
    "plain ''example.com''" "plain ''z1''"
    "list_all (\<lambda>item. plain (fst item)) [(''TLSv1.2'', 100::int), (''TLSv1.3'', 250), (''none'', 0)]"
    by (simp_all add: well_formed_def plain_def newline_def)
  show ?thesis
    using h export_zone_tls_stats_round_trip [OF h, of "''old''"] by blast
qed

section \<open>Properties of the Pipeline Orchestrator\<close>

lemma fetch_chunks_effects:
  "fetch_chunks net process zone_name zone_tag limit delay verbose i chunks acc s = (Inr stats, s')
   \<Longrightarrow> sleeps s' = sleeps s @ (if 0 < delay then replicate (length chunks) delay else [])
     \<and> length (queries s') = length (queries s) + length chunks
     \<and> global_stats s' = global_stats s \<and> all_zone_stats s' = all_zone_stats s
     \<and> export_file s' = export_file s"
proof (induction chunks arbitrary: i acc s)
  case Nil
  then show ?case by simp
next
  case (Cons chunk chunks)
  let ?answer = "execute_graphql_query verbose (net (length (queries s)))"
  let ?s1 = "s\<lparr>queries := queries s @ [(zone_tag, fst chunk, snd chunk, limit)],
                 printed := printed s @ snd ?answer\<rparr>"
  let ?s2 = "if 0 < delay then ?s1\<lparr>sleeps := sleeps ?s1 @ [delay]\<rparr> else ?s1"
  have s2: "sleeps ?s2 = sleeps s @ (if 0 < delay then [delay] else [])"
    "length (queries ?s2) = Suc (length (queries s))"
    "global_stats ?s2 = global_stats s" "all_zone_stats ?s2 = all_zone_stats s"
    "export_file ?s2 = export_file s"
    by simp_all
  from Cons.prems obtain response_data where r: "fst ?answer = Inr response_data"
    by (cases "fst ?answer") (auto simp: Let_def)
  have "\<exists>acc' s3. fetch_chunks net process zone_name zone_tag limit delay verbose (Suc i) chunks acc' s3
          = (Inr stats, s')
        \<and> sleeps s3 = sleeps ?s2 \<and> queries s3 = queries ?s2 \<and> global_stats s3 = global_stats ?s2
        \<and> all_zone_stats s3 = all_zone_stats ?s2 \<and> export_file s3 = export_file ?s2"
  proof (cases "if_truthy response_data")
    case None
    then have "fetch_chunks net process zone_name zone_tag limit delay verbose (Suc i) chunks acc
        (?s2\<lparr>printed := printed ?s2 @ [ChunkFailed i]\<rparr>) = (Inr stats, s')"
      using Cons.prems r by (simp add: Let_def)
    then show ?thesis by (intro exI conjI) (assumption, simp_all)
  next
    case (Some data)
    then obtain c where "process data zone_name = Inr c"
      and "fetch_chunks net process zone_name zone_tag limit delay verbose (Suc i) chunks (acc @ [c]) ?s2
           = (Inr stats, s')"
      using Cons.prems r by (cases "process data zone_name") (auto simp: Let_def)
    then show ?thesis by blast
  qed
  then obtain acc' s3 where f: "fetch_chunks net process zone_name zone_tag limit delay verbose (Suc i) chunks acc' s3
          = (Inr stats, s')"
    and e: "sleeps s3 = sleeps ?s2" "queries s3 = queries ?s2" "global_stats s3 = global_stats ?s2"
        "all_zone_stats s3 = all_zone_stats ?s2" "export_file s3 = export_file ?s2"
    by blast
  show ?case
    using Cons.IH[OF f] unfolding e s2 by (simp add: replicate_append_same)
qed











lemma fetch_zone_effects:
  assumes "fetch_zone_tls_stats_chunked net process zone_name zone_tag start_dt end_dt limit delay
             verbose s = Some (Inr stats, s')"
    and "chunk_time_range start_dt end_dt 259200 = Some (Inr time_chunks)"
  shows "sleeps s' = sleeps s @ (if 0 < delay then replicate (length time_chunks) delay else [])"
    and "length (queries s') = length (queries s) + length time_chunks"
    and "global_stats s' = global_stats s" and "all_zone_stats s' = all_zone_stats s"
    and "export_file s' = export_file s"
proof -
  obtain chunk_stats where "fetch_chunks net process zone_name zone_tag limit delay verbose 1 time_chunks [] s
      = (Inr chunk_stats, s')"
    using assms by (auto simp: fetch_zone_tls_stats_chunked_def split: prod.splits sum.splits)
  note e = fetch_chunks_effects[OF this]
  show "sleeps s' = sleeps s @ (if 0 < delay then replicate (length time_chunks) delay else [])"
    and "length (queries s') = length (queries s) + length time_chunks"
    and "global_stats s' = global_stats s" and "all_zone_stats s' = all_zone_stats s"
    and "export_file s' = export_file s"
    using e by simp_all
qed

lemma main_zones_pauses:
  assumes "chunk_time_range start_dt end_dt 259200 = Some (Inr time_chunks)" and "0 < delay"
  shows "main_zones net process start_dt end_dt limit delay verbose export n i zones s = Some (Inr (), s')
    \<Longrightarrow> i + length zones = Suc n
    \<Longrightarrow> length (sleeps s') = length (sleeps s) + length zones * length time_chunks + (length zones - 1)"
proof (induction zones arbitrary: i s)
  case Nil
  then show ?case by simp
next
  case (Cons zone zones)
  from Cons.prems(1) obtain zone_tls_stats s1 where
    f: "fetch_zone_tls_stats_chunked net process (fst zone) (snd zone) start_dt end_dt limit
             delay verbose s = Some (Inr zone_tls_stats, s1)"
    by (auto split: option.splits sum.splits prod.splits)
  let ?s2 = "if zone_tls_stats \<noteq> [] then
                    s1\<lparr>all_zone_stats := AList.update (fst zone) zone_tls_stats (all_zone_stats s1),
                        global_stats := foldl add_requests (global_stats s1) zone_tls_stats,
                        export_file :=
                          (case export of
                             None \<Rightarrow> export_file s1
                           | Some writable \<Rightarrow>
                               export_zone_tls_stats (fst zone) (snd zone) zone_tls_stats writable
                                 (export_file s1))\<rparr>
                  else s1\<lparr>all_zone_stats := AList.update (fst zone) [] (all_zone_stats s1)\<rparr>"
  let ?s3 = "if i < n \<and> 0 < delay then ?s2\<lparr>sleeps := sleeps ?s2 @ [delay]\<rparr> else ?s2"
  have rec: "main_zones net process start_dt end_dt limit delay verbose export n (Suc i) zones ?s3
      = Some (Inr (), s')"
    using Cons.prems(1) f by (simp add: Let_def)
  have i: "i < n \<longleftrightarrow> zones \<noteq> []" using Cons.prems(2) by auto
  have "sleeps s1 = sleeps s @ replicate (length time_chunks) delay"
    using fetch_zone_effects(1)[OF f assms(1)] assms(2) by simp
  then have "length (sleeps ?s3)
      = length (sleeps s) + length time_chunks + (if zones \<noteq> [] then 1 else 0)"
    using i assms(2) by simp
  moreover have "length (sleeps s') = length (sleeps ?s3) + length zones * length time_chunks + (length zones - 1)"
    using Cons.IH[OF rec] Cons.prems(2) by simp
  ultimately show ?case by (cases zones) simp_all
qed

lemma main_loop_pauses:
  assumes "main_loop net process start_dt end_dt limit delay verbose export zones = Some (Inr (), s')"
    and "chunk_time_range start_dt end_dt 259200 = Some (Inr time_chunks)" and "0 < delay"
  shows "length (sleeps s') = length zones * length time_chunks + (length zones - 1)"
  using main_zones_pauses[OF assms(2,3), of net process limit verbose export "length zones" 1 zones initial_run s']
    assms(1)
  by (simp add: main_loop_def initial_run_def)

text \<open>
  Claim C7 counts \<open>z * w - 1\<close> pauses for \<open>z\<close> zones of \<open>w\<close> windows each, none after
  the last window of a zone or after the last zone. By \<open>main_loop_pauses\<close> the run takes
  \<open>z * w + (z - 1)\<close> pauses: the chunk loop pauses after every query, the last one of a
  zone included, and the zone loop pauses again between two zones. Evaluated for two zones
  of two windows each (500000 seconds from the first of January 2024), with a pause of half
  a second, the run takes five pauses, not three.
\<close>

theorem main_loop_pauses_two_zones_two_windows:
  "map_option (\<lambda>r. (fst r, sleeps (snd r)))
     (main_loop (\<lambda>n. Body (JObj [(''data'', JObj [])])) (\<lambda>data zone_name. Inr [(''TLSv1.3'', 5)])
        (utc 63839664000000000) (utc 63840164000000000) 1000 (1 / 2) False None [(''example.com'', ''z1''), (''example.org'', ''z2'')])
   = Some (Inr (), [1 / 2, 1 / 2, 1 / 2, 1 / 2, 1 / 2])"
  by (simp add: main_loop_def initial_run_def fetch_zone_tls_stats_chunked_def chunk_time_range_def
      chunk_loop.simps dt_less_def comparable_def instant_def utc_def next_chunk_end_def
      timedelta_seconds_def dt_add_def dt_min_def max_wall_def execute_graphql_query_def
      errors_field_def
      aggregate_tls_stats_def Let_def)

lemma well_formed_add_requests: "well_formed a \<Longrightarrow> well_formed (add_requests a e)"
  by (cases e) (simp add: well_formed_def distinct_update split: option.splits)

lemma well_formed_fold: "well_formed a \<Longrightarrow> well_formed (foldl add_requests a d)"
  by (induction d arbitrary: a) (simp_all add: well_formed_add_requests del: add_requests.simps)

lemma well_formed_aggregate: "well_formed (aggregate_tls_stats xs)"
proof -
  have "well_formed a \<Longrightarrow> well_formed (foldl (\<lambda>aggregated stats. foldl add_requests aggregated stats) a xs)" for a
    by (induction xs arbitrary: a) (simp_all add: well_formed_fold)
  then show ?thesis by (simp add: aggregate_tls_stats_def well_formed_def)
qed

lemma fetch_zone_well_formed:
  "fetch_zone_tls_stats_chunked net process zone_name zone_tag start_dt end_dt limit delay verbose s
     = Some (Inr stats, s') \<Longrightarrow> well_formed stats"
  by (auto simp: fetch_zone_tls_stats_chunked_def well_formed_aggregate
      split: option.splits prod.splits sum.splits)

lemma fetch_zone_chunks:
  "fetch_zone_tls_stats_chunked net process zone_name zone_tag start_dt end_dt limit delay verbose s
     = Some (Inr stats, s')
   \<Longrightarrow> \<exists>time_chunks. chunk_time_range start_dt end_dt 259200 = Some (Inr time_chunks)"
  by (auto simp: fetch_zone_tls_stats_chunked_def split: option.splits sum.splits)

lemma update_new_key: "k \<notin> fst ` set al \<Longrightarrow> AList.update k v al = al @ [(k, v)]"
  by (induction al) auto

lemma main_zones_reports:
  "main_zones net process start_dt end_dt limit delay verbose export n i zones s = Some (Inr (), s')
   \<Longrightarrow> distinct (map fst zones) \<Longrightarrow> fst ` set zones \<inter> fst ` set (all_zone_stats s) = {}
   \<Longrightarrow> \<exists>zone_stats. length zone_stats = length zones \<and> list_all well_formed zone_stats
         \<and> all_zone_stats s' = all_zone_stats s @ zip (map fst zones) zone_stats
         \<and> global_stats s' = foldl global_update (global_stats s) zone_stats"
proof (induction zones arbitrary: i s)
  case Nil
  then show ?case by simp
next
  case (Cons zone zones)
  from Cons.prems(1) obtain zone_tls_stats s1 where
    f: "fetch_zone_tls_stats_chunked net process (fst zone) (snd zone) start_dt end_dt limit
             delay verbose s = Some (Inr zone_tls_stats, s1)"
    by (auto split: option.splits sum.splits prod.splits)
  obtain time_chunks where tc: "chunk_time_range start_dt end_dt 259200 = Some (Inr time_chunks)"
    using fetch_zone_chunks[OF f] by blast
  note e = fetch_zone_effects[OF f tc]
  let ?s2 = "if zone_tls_stats \<noteq> [] then
                    s1\<lparr>all_zone_stats := AList.update (fst zone) zone_tls_stats (all_zone_stats s1),
                        global_stats := foldl add_requests (global_stats s1) zone_tls_stats,
                        export_file :=
                          (case export of
                             None \<Rightarrow> export_file s1
                           | Some writable \<Rightarrow>
                               export_zone_tls_stats (fst zone) (snd zone) zone_tls_stats writable
                                 (export_file s1))\<rparr>
                  else s1\<lparr>all_zone_stats := AList.update (fst zone) [] (all_zone_stats s1)\<rparr>"
  let ?s3 = "if i < n \<and> 0 < delay then ?s2\<lparr>sleeps := sleeps ?s2 @ [delay]\<rparr> else ?s2"
  have rec: "main_zones net process start_dt end_dt limit delay verbose export n (Suc i) zones ?s3
      = Some (Inr (), s')"
    using Cons.prems(1) f by (simp add: Let_def)
  have new: "fst zone \<notin> fst ` set (all_zone_stats s)" using Cons.prems(3) by auto
  have a3: "all_zone_stats ?s3 = all_zone_stats s @ [(fst zone, zone_tls_stats)]"
    using e(4) update_new_key[OF new] by simp
  have g3: "global_stats ?s3 = global_update (global_stats s) zone_tls_stats"
    using e(3) by (simp add: global_update_def)
  have d: "distinct (map fst zones)" using Cons.prems(2) by simp
  have "fst ` set zones \<inter> fst ` set (all_zone_stats ?s3) = {}"
    unfolding a3 using Cons.prems(2,3) by auto
  from Cons.IH[OF rec d this] obtain zone_stats where
    z: "length zone_stats = length zones" "list_all well_formed zone_stats"
      "all_zone_stats s' = all_zone_stats ?s3 @ zip (map fst zones) zone_stats"
      "global_stats s' = foldl global_update (global_stats ?s3) zone_stats"
    by blast
  have "length (zone_tls_stats # zone_stats) = length (zone # zones)" using z(1) by simp
  moreover have "list_all well_formed (zone_tls_stats # zone_stats)"
    using z(2) fetch_zone_well_formed[OF f] by simp
  moreover have "all_zone_stats s' = all_zone_stats s @ zip (map fst (zone # zones)) (zone_tls_stats # zone_stats)"
    unfolding z(3) a3 by simp
  moreover have "global_stats s' = foldl global_update (global_stats s) (zone_tls_stats # zone_stats)"
    unfolding z(4) g3 by simp
  ultimately show ?case by blast
qed

lemma main_loop_global_report:
  assumes "main_loop net process start_dt end_dt limit delay verbose export zones = Some (Inr (), s')"
    and "distinct (map fst zones)"
  shows "map fst (all_zone_stats s') = map fst zones"
    and "map_of (global_stats s') = elementwise_sum (map snd (all_zone_stats s'))"
proof -
  obtain zone_stats where
    z: "length zone_stats = length zones" "list_all well_formed zone_stats"
      "all_zone_stats s' = zip (map fst zones) zone_stats"
      "global_stats s' = foldl global_update [] zone_stats"
    using main_zones_reports[OF assms(1)[unfolded main_loop_def] assms(2)]
    by (auto simp: initial_run_def)
  show "map fst (all_zone_stats s') = map fst zones" using z(1,3) by simp
  have "map snd (all_zone_stats s') = zone_stats" using z(1,3) by simp
  moreover have "map_of (global_stats s') = elementwise_sum zone_stats"
    using aggregate_tls_stats_sum[OF z(2)] z(4)
    by (simp add: global_tls_stats_aggregate[symmetric] global_tls_stats_def)
  ultimately show "map_of (global_stats s') = elementwise_sum (map snd (all_zone_stats s'))" by simp
qed

end
